theory Spec2Isabelle
  imports Complex_Main
begin

section \<open>JavaScript numbers\<close>

text \<open>
  The solver of \<^verbatim>\<open>src/services/fluidSolver.ts\<close> computes with JavaScript numbers.
  A number is modelled as a finite real, one of the two infinities, or NaN.  The special
  values follow IEEE 754 as JavaScript exposes it: NaN is absorbing, every comparison with
  NaN is false, \<open>\<infinity> - \<infinity>\<close>, \<open>0 \<sqdot> \<infinity>\<close>, \<open>0 / 0\<close> and \<open>\<infinity> / \<infinity>\<close> are NaN, and a non-zero
  finite number divided by zero is an infinity.  Arithmetic on finite values is exact:
  rounding (to double precision, and to single precision when a value is stored in a
  \<^verbatim>\<open>Float32Array\<close>) and overflow of finite results are not modelled, and zero carries
  no sign (a zero divisor counts as \<open>+0\<close>).
\<close>

datatype num = Fin real | PInf | NInf | NaN

fun isNaN :: "num \<Rightarrow> bool" where
  "isNaN NaN = True"
| "isNaN _ = False"

fun isFinite :: "num \<Rightarrow> bool" where
  "isFinite (Fin _) = True"
| "isFinite _ = False"

fun neg :: "num \<Rightarrow> num" where
  "neg (Fin a) = Fin (- a)"
| "neg PInf = NInf"
| "neg NInf = PInf"
| "neg NaN = NaN"

fun add :: "num \<Rightarrow> num \<Rightarrow> num" where
  "add (Fin a) (Fin b) = Fin (a + b)"
| "add NaN _ = NaN"
| "add _ NaN = NaN"
| "add PInf NInf = NaN"
| "add NInf PInf = NaN"
| "add PInf _ = PInf"
| "add _ PInf = PInf"
| "add NInf _ = NInf"
| "add _ NInf = NInf"

definition sub :: "num \<Rightarrow> num \<Rightarrow> num" where
  "sub a b = add a (neg b)"

text \<open>An infinity of sign \<open>pos\<close> times the finite factor \<open>a\<close>.\<close>

definition inf_times :: "bool \<Rightarrow> real \<Rightarrow> num" where
  "inf_times pos a =
     (if a = 0 then NaN else if (0 < a) = pos then PInf else NInf)"

fun mul :: "num \<Rightarrow> num \<Rightarrow> num" where
  "mul (Fin a) (Fin b) = Fin (a * b)"
| "mul NaN _ = NaN"
| "mul _ NaN = NaN"
| "mul (Fin a) PInf = inf_times True a"
| "mul (Fin a) NInf = inf_times False a"
| "mul PInf (Fin b) = inf_times True b"
| "mul NInf (Fin b) = inf_times False b"
| "mul PInf PInf = PInf"
| "mul NInf NInf = PInf"
| "mul PInf NInf = NInf"
| "mul NInf PInf = NInf"

fun divide :: "num \<Rightarrow> num \<Rightarrow> num" where
  "divide (Fin a) (Fin b) =
     (if b = 0 then (if a = 0 then NaN else if 0 < a then PInf else NInf)
      else Fin (a / b))"
| "divide NaN _ = NaN"
| "divide _ NaN = NaN"
| "divide (Fin a) _ = Fin 0"
| "divide PInf (Fin b) = (if 0 \<le> b then PInf else NInf)"
| "divide NInf (Fin b) = (if 0 \<le> b then NInf else PInf)"
| "divide _ _ = NaN"

text \<open>The comparison \<^verbatim>\<open>a < b\<close>; \<^verbatim>\<open>a > b\<close> is \<open>lt b a\<close>.\<close>

fun lt :: "num \<Rightarrow> num \<Rightarrow> bool" where
  "lt (Fin a) (Fin b) = (a < b)"
| "lt NaN _ = False"
| "lt _ NaN = False"
| "lt _ NInf = False"
| "lt PInf _ = False"
| "lt _ PInf = True"
| "lt NInf _ = True"

definition Math_max :: "num \<Rightarrow> num \<Rightarrow> num" where
  "Math_max a b = (if isNaN a \<or> isNaN b then NaN else if lt a b then b else a)"

definition Math_min :: "num \<Rightarrow> num \<Rightarrow> num" where
  "Math_min a b = (if isNaN a \<or> isNaN b then NaN else if lt b a then b else a)"

fun Math_abs :: "num \<Rightarrow> num" where
  "Math_abs (Fin a) = Fin \<bar>a\<bar>"
| "Math_abs NaN = NaN"
| "Math_abs _ = PInf"

fun Math_sqrt :: "num \<Rightarrow> num" where
  "Math_sqrt (Fin a) = (if a < 0 then NaN else Fin (sqrt a))"
| "Math_sqrt PInf = PInf"
| "Math_sqrt _ = NaN"

fun Math_log :: "num \<Rightarrow> num" where
  "Math_log (Fin a) = (if a < 0 then NaN else if a = 0 then NInf else Fin (ln a))"
| "Math_log PInf = PInf"
| "Math_log _ = NaN"




section \<open>The solver's data\<close>

text \<open>
  A \<^verbatim>\<open>Float32Array\<close> is a list of numbers of fixed length.  Reading outside the array
  gives \<^verbatim>\<open>undefined\<close>, which every use in the solver turns into NaN; writing outside
  the array does nothing.
\<close>

type_synonym f32array = "num list"

definition rd :: "f32array \<Rightarrow> int \<Rightarrow> num" where
  "rd a i = (if 0 \<le> i \<and> i < int (length a) then a ! nat i else NaN)"

definition wr :: "f32array \<Rightarrow> int \<Rightarrow> num \<Rightarrow> f32array" where
  "wr a i x = (if 0 \<le> i \<and> i < int (length a) then a[nat i := x] else a)"

datatype error = RangeError

text \<open>\<^verbatim>\<open>target.set(source)\<close>: copies \<open>source\<close> over the front of \<open>target\<close>.\<close>

definition arr_set :: "f32array \<Rightarrow> f32array \<Rightarrow> error + f32array" where
  "arr_set target source =
     (if length source \<le> length target
      then Inr (source @ drop (length source) target)
      else Inl RangeError)"

text \<open>
  \<^verbatim>\<open>for (let i = 0; i < n; i++) body\<close>, where the body maps the index and the state
  before the iteration to the state after it.
\<close>

primrec for_loop :: "nat \<Rightarrow> (int \<Rightarrow> 'a \<Rightarrow> 'a) \<Rightarrow> 'a \<Rightarrow> 'a" where
  "for_loop 0 body s = s"
| "for_loop (Suc n) body s = body (int n) (for_loop n body s)"

text \<open>
  The cached boundary states \<^verbatim>\<open>{ rho, u, v, p, E }\<close> (the fields carry the prefix
  \<open>b_\<close>) and the solver object.
\<close>

record boundaryState =
  b_rho :: num
  b_u :: num
  b_v :: num
  b_p :: num
  b_E :: num

record FluidSolver =
  nx :: int
  ny :: int
  dx :: num
  dy :: num
  Q :: f32array
  Q_new :: f32array
  t :: num
  inletState :: boundaryState
  ambientState :: boundaryState

definition PHYSICS_R :: num where
  "PHYSICS_R = Fin (28705 / 100)"

definition PHYSICS_GAMMA :: num where
  "PHYSICS_GAMMA = Fin (14 / 10)"

section \<open>Construction, pressure and energy, boundary states\<close>


definition getPressure :: "num \<Rightarrow> num \<Rightarrow> num \<Rightarrow> num \<Rightarrow> num" where
  "getPressure rho rhou rhov rhoE =
     (let safeRho = Math_max (Fin (1 / 10000)) rho;
          kinE = divide (mul (Fin (1 / 2)) (add (mul rhou rhou) (mul rhov rhov))) safeRho;
          pr = mul (sub PHYSICS_GAMMA (Fin 1)) (sub rhoE kinE)
      in Math_max (Fin 10) pr)"

definition computeEnergy :: "num \<Rightarrow> num \<Rightarrow> num \<Rightarrow> num \<Rightarrow> num" where
  "computeEnergy rho vx vy pr =
     add (divide pr (sub PHYSICS_GAMMA (Fin 1)))
         (mul (mul (Fin (1 / 2)) rho) (add (mul vx vx) (mul vy vy)))"


section \<open>Boundary imprint, initialisation and reset\<close>

text \<open>The three loops of \<^verbatim>\<open>applyBoundaryConditions\<close>, each over the buffer \<open>Q_new\<close>.\<close>

definition inletCell :: "FluidSolver \<Rightarrow> int \<Rightarrow> f32array \<Rightarrow> f32array" where
  "inletCell s j q =
     (let centerY = ny s div 2;
          radius = ny s div 8;
          idx = (j * nx s) * 4
      in if \<bar>j - centerY\<bar> \<le> radius then
           (let q1 = wr q idx (b_rho (inletState s));
                q2 = wr q1 (idx + 1) (mul (b_rho (inletState s)) (b_u (inletState s)));
                q3 = wr q2 (idx + 2) (mul (b_rho (inletState s)) (b_v (inletState s)))
            in wr q3 (idx + 3) (b_E (inletState s)))
         else
           (let q1 = wr q idx (rd q (idx + 4));
                q2 = wr q1 (idx + 1) (Fin 0);
                q3 = wr q2 (idx + 2) (rd q2 (idx + 4 + 2));
                rho = rd q3 idx;
                pr = getPressure (rd q3 (idx + 4)) (rd q3 (idx + 4 + 1))
                       (rd q3 (idx + 4 + 2)) (rd q3 (idx + 4 + 3))
            in wr q3 (idx + 3)
                 (computeEnergy rho (Fin 0) (divide (rd q3 (idx + 2)) rho) pr)))"

definition outletCell :: "FluidSolver \<Rightarrow> int \<Rightarrow> f32array \<Rightarrow> f32array" where
  "outletCell s j q =
     (let idxOut = (j * nx s + nx s - 1) * 4;
          idxIn = (j * nx s + nx s - 2) * 4;
          q1 = wr q idxOut (rd q idxIn);
          q2 = wr q1 (idxOut + 1) (rd q1 (idxIn + 1));
          q3 = wr q2 (idxOut + 2) (rd q2 (idxIn + 2))
      in wr q3 (idxOut + 3) (rd q3 (idxIn + 3)))"

definition farFieldCell :: "FluidSolver \<Rightarrow> int \<Rightarrow> f32array \<Rightarrow> f32array" where
  "farFieldCell s i q =
     (let idxBot = i * 4;
          idxTop = ((ny s - 1) * nx s + i) * 4;
          q1 = wr q idxBot (b_rho (ambientState s));
          q2 = wr q1 (idxBot + 1) (Fin 0);
          q3 = wr q2 (idxBot + 2) (Fin 0);
          q4 = wr q3 (idxBot + 3) (b_E (ambientState s));
          q5 = wr q4 idxTop (b_rho (ambientState s));
          q6 = wr q5 (idxTop + 1) (Fin 0);
          q7 = wr q6 (idxTop + 2) (Fin 0)
      in wr q7 (idxTop + 3) (b_E (ambientState s)))"

definition applyBoundaryConditions :: "FluidSolver \<Rightarrow> FluidSolver" where
  "applyBoundaryConditions s =
     (let q1 = for_loop (nat (ny s)) (inletCell s) (Q_new s);
          q2 = for_loop (nat (ny s)) (outletCell s) q1;
          q3 = for_loop (nat (nx s)) (farFieldCell s) q2
      in s\<lparr> Q_new := q3 \<rparr>)"

definition ambientCell :: "FluidSolver \<Rightarrow> int \<Rightarrow> f32array \<Rightarrow> f32array" where
  "ambientCell s i q =
     (let idx = i * 4;
          q1 = wr q idx (b_rho (ambientState s));
          q2 = wr q1 (idx + 1) (mul (b_rho (ambientState s)) (b_u (ambientState s)));
          q3 = wr q2 (idx + 2) (mul (b_rho (ambientState s)) (b_v (ambientState s)))
      in wr q3 (idx + 3) (b_E (ambientState s)))"

definition initializeField :: "FluidSolver \<Rightarrow> FluidSolver" where
  "initializeField s =
     applyBoundaryConditions
       (s\<lparr> Q := for_loop (nat (nx s * ny s)) (ambientCell s) (Q s) \<rparr>)"

definition reset :: "FluidSolver \<Rightarrow> FluidSolver" where
  "reset s = initializeField (s\<lparr> t := Fin 0 \<rparr>)"

section \<open>The Roe flux\<close>

type_synonym vec4 = "num \<times> num \<times> num \<times> num"

text \<open>
  \<^verbatim>\<open>roeFlux1D\<close> is modelled step by step, one definition for each numbered step of
  its body.  The face normal is \<open>(dirX, dirY)\<close> (the source's parameters \<^verbatim>\<open>nx\<close>,
  \<^verbatim>\<open>ny\<close>, which hide the grid dimensions there).
\<close>

text \<open>Steps 1 and 2: the primitive variables \<open>(r, u_raw, v_raw, p, h)\<close> of the cell at \<open>idx\<close>.\<close>

definition facePrimitives :: "FluidSolver \<Rightarrow> int \<Rightarrow> num \<times> num \<times> num \<times> num \<times> num" where
  "facePrimitives s idx =
     (let r = Math_max (Fin (1 / 1000000)) (rd (Q s) idx);
          u_raw = divide (rd (Q s) (idx + 1)) r;
          v_raw = divide (rd (Q s) (idx + 2)) r;
          pr = getPressure r (rd (Q s) (idx + 1)) (rd (Q s) (idx + 2)) (rd (Q s) (idx + 3));
          h = divide (add (rd (Q s) (idx + 3)) pr) r
      in (r, u_raw, v_raw, pr, h))"

text \<open>Step 3: normal and tangential velocity.\<close>

definition rotateToNormal :: "num \<Rightarrow> num \<Rightarrow> num \<Rightarrow> num \<Rightarrow> num \<times> num" where
  "rotateToNormal u_raw v_raw dirX dirY =
     (add (mul u_raw dirX) (mul v_raw dirY),
      add (mul (neg u_raw) dirY) (mul v_raw dirX))"

text \<open>Step 4: the Roe average \<open>(u, v, h, q2, c)\<close>, with \<open>sL\<close> and \<open>sR\<close>.\<close>

definition roeAverage ::
  "num \<Rightarrow> num \<Rightarrow> num \<Rightarrow> num \<Rightarrow> num \<Rightarrow> num \<Rightarrow> num \<Rightarrow> num \<Rightarrow>
   num \<times> num \<times> num \<times> num \<times> num \<times> num \<times> num" where
  "roeAverage rL uL vL hL rR uR vR hR =
     (let gamma = PHYSICS_GAMMA;
          eps = Fin (1 / 1000000000);
          sL = Math_sqrt rL;
          sR = Math_sqrt rR;
          id = divide (Fin 1) (add (add sL sR) eps);
          um = mul (add (mul sL uL) (mul sR uR)) id;
          vm = mul (add (mul sL vL) (mul sR vR)) id;
          h = mul (add (mul sL hL) (mul sR hR)) id;
          q2 = add (mul um um) (mul vm vm);
          c2 = mul (sub gamma (Fin 1)) (sub h (mul (Fin (1 / 2)) q2));
          c = Math_sqrt (Math_max (Fin 50) c2)
      in (um, vm, h, q2, c, sL, sR))"

text \<open>Step 5: the absolute eigenvalues after the entropy fix, \<open>(L1, L2, L3, L4)\<close>.\<close>

definition entropyFix :: "num \<Rightarrow> num \<Rightarrow> num" where
  "entropyFix delta l =
     (if lt l delta
      then divide (add (mul l l) (mul delta delta)) (mul (Fin 2) delta)
      else l)"

definition eigenvalues :: "num \<Rightarrow> num \<Rightarrow> vec4" where
  "eigenvalues um c =
     (let l1 = Math_abs (sub um c);
          l2 = Math_abs um;
          l3 = Math_abs um;
          l4 = Math_abs (add um c);
          delta = mul (Fin (1 / 4)) (add (Math_abs um) c)
      in (entropyFix delta l1, entropyFix delta l2, entropyFix delta l3, entropyFix delta l4))"

text \<open>Step 6: the wave amplitudes \<open>(alpha1, alpha2, alpha3, alpha4)\<close>.\<close>

definition waveAmplitudes ::
  "num \<Rightarrow> num \<Rightarrow> num \<Rightarrow> num \<Rightarrow> num \<Rightarrow> num \<Rightarrow> num \<Rightarrow> num \<Rightarrow> num \<Rightarrow> num \<Rightarrow> num \<Rightarrow> vec4" where
  "waveAmplitudes rL uL vL pL rR uR vR pR sL sR c =
     (let dr = sub rR rL;
          du = sub uR uL;
          dv = sub vR vL;
          dp = sub pR pL;
          rhoRoe = mul sL sR
      in (divide (sub dp (mul (mul rhoRoe c) du)) (mul (mul (Fin 2) c) c),
          sub dr (divide dp (mul c c)),
          mul rhoRoe dv,
          divide (add dp (mul (mul rhoRoe c) du)) (mul (mul (Fin 2) c) c)))"

text \<open>Step 7: the dissipation \<open>(d0, d1, d2, d3)\<close>.\<close>

definition dissipation :: "vec4 \<Rightarrow> vec4 \<Rightarrow> num \<Rightarrow> num \<Rightarrow> num \<Rightarrow> num \<Rightarrow> num \<Rightarrow> vec4" where
  "dissipation Ls alphas um vm h q2 c =
     (case Ls of (L1, L2, L3, L4) \<Rightarrow>
      case alphas of (alpha1, alpha2, alpha3, alpha4) \<Rightarrow>
        (add (add (mul L1 alpha1) (mul L2 alpha2)) (mul L4 alpha4),
         add (add (mul (mul L1 alpha1) (sub um c)) (mul (mul L2 alpha2) um))
           (mul (mul L4 alpha4) (add um c)),
         add (add (add (mul (mul L1 alpha1) vm) (mul (mul L2 alpha2) vm)) (mul L3 alpha3))
           (mul (mul L4 alpha4) vm),
         add (add (add (mul (mul L1 alpha1) (sub h (mul um c)))
                     (mul (mul L2 alpha2) (mul (Fin (1 / 2)) q2)))
                (mul (mul L3 alpha3) vm))
           (mul (mul L4 alpha4) (add h (mul um c)))))"

text \<open>Step 8: the physical flux of one side, and the numerical flux in the rotated frame.\<close>

definition physicalFlux :: "num \<Rightarrow> num \<Rightarrow> num \<Rightarrow> num \<Rightarrow> num \<Rightarrow> vec4" where
  "physicalFlux r vn vt pr h =
     (mul r vn, add (mul (mul r vn) vn) pr, mul (mul r vn) vt, mul (mul r vn) h)"

definition fluxAverage :: "vec4 \<Rightarrow> vec4 \<Rightarrow> vec4 \<Rightarrow> vec4" where
  "fluxAverage FL FR ds =
     (case FL of (FL0, FL1, FL2, FL3) \<Rightarrow>
      case FR of (FR0, FR1, FR2, FR3) \<Rightarrow>
      case ds of (d0, d1, d2, d3) \<Rightarrow>
        (sub (mul (Fin (1 / 2)) (add FL0 FR0)) (mul (Fin (1 / 2)) d0),
         sub (mul (Fin (1 / 2)) (add FL1 FR1)) (mul (Fin (1 / 2)) d1),
         sub (mul (Fin (1 / 2)) (add FL2 FR2)) (mul (Fin (1 / 2)) d2),
         sub (mul (Fin (1 / 2)) (add FL3 FR3)) (mul (Fin (1 / 2)) d3)))"

text \<open>Step 9: the flux back in the global frame.\<close>

definition rotateBack :: "vec4 \<Rightarrow> num \<Rightarrow> num \<Rightarrow> vec4" where
  "rotateBack fn dirX dirY =
     (case fn of (fn0, fn1, fn2, fn3) \<Rightarrow>
        (fn0, sub (mul fn1 dirX) (mul fn2 dirY), add (mul fn1 dirY) (mul fn2 dirX), fn3))"

text \<open>
  The steps in the order of the source, with the wave amplitudes and the dissipation kept
  beside the flux.  \<open>None\<close> is the early return of the safety check, where the source
  computes neither.
\<close>

definition roeWaves ::
  "FluidSolver \<Rightarrow> int \<Rightarrow> int \<Rightarrow> num \<Rightarrow> num \<Rightarrow> (vec4 \<times> vec4 \<times> vec4) option" where
  "roeWaves s idxL idxR dirX dirY =
     (case facePrimitives s idxL of (rL, uL_raw, vL_raw, pL, hL) \<Rightarrow>
      case facePrimitives s idxR of (rR, uR_raw, vR_raw, pR, hR) \<Rightarrow>
        if isNaN pL \<or> isNaN pR then None
        else
          (case rotateToNormal uL_raw vL_raw dirX dirY of (uL, vL) \<Rightarrow>
           case rotateToNormal uR_raw vR_raw dirX dirY of (uR, vR) \<Rightarrow>
           case roeAverage rL uL vL hL rR uR vR hR of (um, vm, h, q2, c, sL, sR) \<Rightarrow>
             (let Ls = eigenvalues um c;
                  alphas = waveAmplitudes rL uL vL pL rR uR vR pR sL sR c;
                  ds = dissipation Ls alphas um vm h q2 c;
                  FL = physicalFlux rL uL vL pL hL;
                  FR = physicalFlux rR uR vR pR hR;
                  fn = fluxAverage FL FR ds
              in Some (alphas, ds, rotateBack fn dirX dirY))))"

definition roeFlux1D :: "FluidSolver \<Rightarrow> int \<Rightarrow> int \<Rightarrow> num \<Rightarrow> num \<Rightarrow> vec4" where
  "roeFlux1D s idxL idxR dirX dirY =
     (case roeWaves s idxL idxR dirX dirY of
        None \<Rightarrow> (Fin 0, Fin 0, Fin 0, Fin 0)
      | Some (alphas, ds, flux) \<Rightarrow> flux)"

section \<open>The sweeps\<close>

text \<open>
  One pass of the inner loop body of \<^verbatim>\<open>computeFluxes\<close>: the flux of the face between
  the cells at \<open>idxL\<close> and \<open>idxR\<close> is read from \<open>Q\<close> and applied to the buffer \<open>qn\<close>
  (\<open>Q_new\<close>).
\<close>

definition applyFlux :: "num \<Rightarrow> vec4 \<Rightarrow> int \<Rightarrow> int \<Rightarrow> f32array \<Rightarrow> f32array" where
  "applyFlux r_dt_h flux idxL idxR qn =
     (case flux of (f0, f1, f2, f3) \<Rightarrow>
        (let q1 = wr qn idxL (sub (rd qn idxL) (mul r_dt_h f0));
             q2 = wr q1 (idxL + 1) (sub (rd q1 (idxL + 1)) (mul r_dt_h f1));
             q3 = wr q2 (idxL + 2) (sub (rd q2 (idxL + 2)) (mul r_dt_h f2));
             q4 = wr q3 (idxL + 3) (sub (rd q3 (idxL + 3)) (mul r_dt_h f3));
             q5 = wr q4 idxR (add (rd q4 idxR) (mul r_dt_h f0));
             q6 = wr q5 (idxR + 1) (add (rd q5 (idxR + 1)) (mul r_dt_h f1));
             q7 = wr q6 (idxR + 2) (add (rd q6 (idxR + 2)) (mul r_dt_h f2))
         in wr q7 (idxR + 3) (add (rd q7 (idxR + 3)) (mul r_dt_h f3))))"

definition faceIdxL :: "FluidSolver \<Rightarrow> bool \<Rightarrow> int \<Rightarrow> int \<Rightarrow> int" where
  "faceIdxL s isX j i = (if isX then (j * nx s + i) * 4 else (i * nx s + j) * 4)"

definition faceIdxR :: "FluidSolver \<Rightarrow> bool \<Rightarrow> int \<Rightarrow> int \<Rightarrow> int" where
  "faceIdxR s isX j i = (if isX then (j * nx s + i + 1) * 4 else ((i + 1) * nx s + j) * 4)"

definition faceUpdate ::
  "FluidSolver \<Rightarrow> num \<Rightarrow> num \<Rightarrow> num \<Rightarrow> int \<Rightarrow> int \<Rightarrow> f32array \<Rightarrow> f32array" where
  "faceUpdate s r_dt_h dirX dirY j i qn =
     (let isX = (dirX = Fin 1);
          idxL = faceIdxL s isX j i;
          idxR = faceIdxR s isX j i;
          flux = roeFlux1D s idxL idxR dirX dirY
      in applyFlux r_dt_h flux idxL idxR qn)"

definition computeFluxes ::
  "num \<Rightarrow> num \<Rightarrow> num \<Rightarrow> num \<Rightarrow> FluidSolver \<Rightarrow> error + FluidSolver" where
  "computeFluxes dt h dirX dirY s =
     (case (if dirX = Fin 1 then arr_set (Q_new s) (Q s) else Inr (Q_new s)) of
        Inl e \<Rightarrow> Inl e
      | Inr qn \<Rightarrow>
          (let isX = (dirX = Fin 1);
               outer = (if isX then ny s else nx s);
               inner = (if isX then nx s else ny s);
               r_dt_h = divide dt h
           in Inr (s\<lparr> Q_new :=
                for_loop (nat outer)
                  (\<lambda>j. for_loop (nat (inner - 1)) (faceUpdate s r_dt_h dirX dirY j)) qn \<rparr>)))"

section \<open>Time step, positivity repair and the step\<close>

definition cellSpeed :: "FluidSolver \<Rightarrow> int \<Rightarrow> num \<Rightarrow> num" where
  "cellSpeed s i maxSpeed =
     (let idx = i * 4;
          r = Math_max (Fin (1 / 1000000)) (rd (Q s) idx);
          invR = divide (Fin 1) r;
          vx = mul (rd (Q s) (idx + 1)) invR;
          vy = mul (rd (Q s) (idx + 2)) invR;
          pr = getPressure r (rd (Q s) (idx + 1)) (rd (Q s) (idx + 2)) (rd (Q s) (idx + 3));
          c = Math_sqrt (mul (mul PHYSICS_GAMMA pr) invR);
          speed = add (Math_sqrt (add (mul vx vx) (mul vy vy))) c
      in if lt maxSpeed speed then speed else maxSpeed)"

definition calculateTimeStep :: "FluidSolver \<Rightarrow> num \<Rightarrow> num" where
  "calculateTimeStep s cfl =
     (let maxSpeed = for_loop (nat (nx s * ny s)) (cellSpeed s) (Fin 0);
          maxSpeed' = Math_max (Fin 10) maxSpeed;
          calculatedDt = divide (mul cfl (Math_min (dx s) (dy s))) maxSpeed'
      in Math_min calculatedDt (Fin (5 / 100000)))"

text \<open>
  One pass of the loop body of \<^verbatim>\<open>fixPositivityAndCheckStability\<close> on the buffer
  \<open>Q_new\<close>.  The flag is \<open>False\<close> where the source returns \<^verbatim>\<open>false\<close>; the buffer
  is returned as it stands at that moment.
\<close>

definition fixCell :: "int \<Rightarrow> f32array \<Rightarrow> bool \<times> f32array" where
  "fixCell i q =
     (let minRho = Fin (5 / 100);
          minP = Fin 100;
          gamma = PHYSICS_GAMMA;
          idx = i * 4;
          r = rd q idx;
          E = rd q (idx + 3)
      in if isNaN r \<or> \<not> isFinite r then (False, q)
         else if isNaN E \<or> \<not> isFinite E then (False, q)
         else
           (let (r', q1) =
                  (if lt r minRho
                   then (minRho, wr (wr (wr q idx minRho) (idx + 1) (Fin 0)) (idx + 2) (Fin 0))
                   else (r, q));
                vx = divide (rd q1 (idx + 1)) r';
                vy = divide (rd q1 (idx + 2)) r'
            in if isNaN vx \<or> isNaN vy then (False, q1)
               else
                 (let kinE = mul (mul (Fin (1 / 2)) r') (add (mul vx vx) (mul vy vy));
                      pr = mul (sub gamma (Fin 1)) (sub E kinE)
                  in if isNaN pr \<or> lt pr minP
                     then (True, wr q1 (idx + 3) (add (divide minP (sub gamma (Fin 1))) kinE))
                     else (True, q1))))"

primrec fixLoop :: "nat \<Rightarrow> f32array \<Rightarrow> bool \<times> f32array" where
  "fixLoop 0 q = (True, q)"
| "fixLoop (Suc n) q =
     (case fixLoop n q of
        (False, q') \<Rightarrow> (False, q')
      | (True, q') \<Rightarrow> fixCell (int n) q')"

definition fixPositivityAndCheckStability :: "FluidSolver \<Rightarrow> bool \<times> FluidSolver" where
  "fixPositivityAndCheckStability s =
     (case fixLoop (nat (nx s * ny s)) (Q_new s) of
        (isStable, q) \<Rightarrow> (isStable, s\<lparr> Q_new := q \<rparr>))"

text \<open>
  \<^verbatim>\<open>step\<close> in two parts: \<open>tentative\<close> is the step up to and including the boundary
  imprint, that is, the state on which the stability check runs; \<open>step\<close> runs the check
  and commits or resets.
\<close>

definition tentative :: "num \<Rightarrow> FluidSolver \<Rightarrow> error + FluidSolver" where
  "tentative cfl s =
     (let dt = calculateTimeStep s cfl;
          s1 = s\<lparr> t := add (t s) dt \<rparr>
      in case computeFluxes dt (dx s1) (Fin 1) (Fin 0) s1 of
           Inl e \<Rightarrow> Inl e
         | Inr s2 \<Rightarrow>
             (case computeFluxes dt (dy s2) (Fin 0) (Fin 1) s2 of
                Inl e \<Rightarrow> Inl e
              | Inr s3 \<Rightarrow> Inr (applyBoundaryConditions s3)))"

definition step :: "num \<Rightarrow> FluidSolver \<Rightarrow> error + FluidSolver" where
  "step cfl s =
     (case tentative cfl s of
        Inl e \<Rightarrow> Inl e
      | Inr s4 \<Rightarrow>
          (case fixPositivityAndCheckStability s4 of
             (isStable, s5) \<Rightarrow>
               if isStable
               then (case arr_set (Q s5) (Q_new s5) of
                       Inl e \<Rightarrow> Inl e
                     | Inr q \<Rightarrow> Inr (s5\<lparr> Q := q \<rparr>))
               else Inr (reset s5)))"

section \<open>The scalar field view\<close>

definition Number_MAX_VALUE :: num where
  "Number_MAX_VALUE = Fin (2 ^ 1024 - 2 ^ 971)"

text \<open>
  The value \<^verbatim>\<open>val\<close> of cell \<open>i\<close> in \<^verbatim>\<open>getScalarField\<close>.  The loop runs only for
  \<open>0 \<le> i < nx \<sqdot> ny\<close>, where \<open>nx \<noteq> 0\<close>, \<^verbatim>\<open>i % nx\<close> is \<open>i mod \<bar>nx\<bar>\<close> and
  \<^verbatim>\<open>Math.floor(i / nx)\<close> is \<open>i div nx\<close>.
\<close>

definition scalarValue :: "FluidSolver \<Rightarrow> string \<Rightarrow> int \<Rightarrow> num" where
  "scalarValue s mode i =
     (let idx = i * 4;
          rho = rd (Q s) idx;
          vx = divide (rd (Q s) (idx + 1)) (add rho (Fin (1 / 1000000000)));
          vy = divide (rd (Q s) (idx + 2)) (add rho (Fin (1 / 1000000000)));
          E = rd (Q s) (idx + 3);
          pr = getPressure rho (rd (Q s) (idx + 1)) (rd (Q s) (idx + 2)) E
      in if mode = ''density'' then rho
         else if mode = ''pressure'' then pr
         else if mode = ''velocity'' then Math_sqrt (add (mul vx vx) (mul vy vy))
         else if mode = ''temperature'' then divide pr (mul rho PHYSICS_R)
         else if mode = ''mach'' then
           (let c = Math_sqrt (divide (mul PHYSICS_GAMMA pr) (add rho (Fin (1 / 1000000000))))
            in divide (Math_sqrt (add (mul vx vx) (mul vy vy)))
                 (add c (Fin (1 / 1000000000))))
         else if mode = ''schlieren'' then
           (let col = i mod \<bar>nx s\<bar>;
                row = i div nx s;
                drdx = (if col > 0 \<and> col < nx s - 1
                        then divide (sub (rd (Q s) (idx + 4)) (rd (Q s) (idx - 4)))
                               (mul (Fin 2) (dx s))
                        else Fin 0);
                drdy = (if row > 0 \<and> row < ny s - 1
                        then (let idxUp = ((row + 1) * nx s + col) * 4;
                                  idxDown = ((row - 1) * nx s + col) * 4
                              in divide (sub (rd (Q s) idxUp) (rd (Q s) idxDown))
                                   (mul (Fin 2) (dy s)))
                        else Fin 0);
                val = Math_sqrt (add (mul drdx drdx) (mul drdy drdy))
            in Math_log (add (Fin 1) (mul (Fin 10) val)))
         else Fin 0)"

definition scalarCell ::
  "FluidSolver \<Rightarrow> string \<Rightarrow> int \<Rightarrow> f32array \<times> num \<times> num \<Rightarrow> f32array \<times> num \<times> num" where
  "scalarCell s mode i acc =
     (case acc of (data, mn, mx) \<Rightarrow>
        (let val = scalarValue s mode i
         in (wr data i val,
             (if lt val mn then val else mn),
             (if lt mx val then val else mx))))"

definition getScalarField :: "FluidSolver \<Rightarrow> string \<Rightarrow> error + (f32array \<times> num \<times> num)" where
  "getScalarField s mode =
     (if nx s * ny s < 0 then Inl RangeError
      else Inr (for_loop (nat (nx s * ny s)) (scalarCell s mode)
                  (replicate (nat (nx s * ny s)) (Fin 0),
                   Number_MAX_VALUE, neg Number_MAX_VALUE)))"

section \<open>Concrete solvers and the supported modes\<close>

text \<open>The solver that \<^verbatim>\<open>new FluidSolver(4, 4)\<close> returns.\<close>

definition fresh44 :: FluidSolver where
  "fresh44 =
     \<lparr> nx = 4, ny = 4, dx = Fin (9 / 40), dy = Fin (9 / 40),
       Q = replicate 64 (Fin 0), Q_new = replicate 64 (Fin 0), t = Fin 0,
       inletState = \<lparr> b_rho = Fin (12 / 10), b_u = Fin 0, b_v = Fin 0,
                      b_p = Fin 101325, b_E = Fin 0 \<rparr>,
       ambientState = \<lparr> b_rho = Fin (1225 / 1000), b_u = Fin 0, b_v = Fin 0,
                        b_p = Fin 101325, b_E = Fin 0 \<rparr> \<rparr>"

text \<open>
  A grid of two cells in one row, both holding \<open>(\<rho>, \<rho>u, \<rho>v, \<rho>E) = (1, 100, 0, 250000)\<close>.
\<close>

definition twoCells :: FluidSolver where
  "twoCells =
     fresh44 \<lparr> nx := 2, ny := 1, dx := Fin (9 / 20), dy := Fin (9 / 20),
       Q := [Fin 1, Fin 100, Fin 0, Fin 250000, Fin 1, Fin 100, Fin 0, Fin 250000],
       Q_new := replicate 8 (Fin 0) \<rparr>"

text \<open>The two cells with the energy of the left cell replaced by \<open>+\<infinity>\<close>, and by NaN.\<close>

definition infEnergy :: FluidSolver where
  "infEnergy = twoCells \<lparr> Q := [Fin 1, Fin 0, Fin 0, PInf, Fin 1, Fin 0, Fin 0, Fin 250000] \<rparr>"

definition nanEnergy :: FluidSolver where
  "nanEnergy = twoCells \<lparr> Q := [Fin 1, Fin 0, Fin 0, NaN, Fin 1, Fin 0, Fin 0, Fin 250000] \<rparr>"


text \<open>
  A \<open>4 \<times> 4\<close> solver at rest: every cell of \<open>Q\<close> holds \<open>(\<rho>, \<rho>u, \<rho>v, \<rho>E) = (1, 0, 0, 250)\<close>,
  the cached ambient state is the same state, and the cached inlet state has the velocity
  \<open>u = +\<infinity>\<close>.
\<close>

definition infInlet :: FluidSolver where
  "infInlet =
     fresh44 \<lparr> Q := concat (replicate 16 [Fin 1, Fin 0, Fin 0, Fin 250]),
       inletState := \<lparr> b_rho = Fin 1, b_u = PInf, b_v = Fin 0, b_p = Fin 100, b_E = Fin 250 \<rparr>,
       ambientState := \<lparr> b_rho = Fin 1, b_u = Fin 0, b_v = Fin 0, b_p = Fin 100, b_E = Fin 250 \<rparr> \<rparr>"

text \<open>
  A field is still when \<open>Q\<close> has four entries for each cell and every cell holds
  \<open>(ro, 0, 0, e)\<close>.
\<close>

definition stillField :: "FluidSolver \<Rightarrow> real \<Rightarrow> real \<Rightarrow> bool" where
  "stillField s ro e \<longleftrightarrow>
     int (length (Q s)) = 4 * nx s * ny s
     \<and> (\<forall>c. 0 \<le> c \<and> c < nx s * ny s \<longrightarrow>
           rd (Q s) (c * 4) = Fin ro \<and> rd (Q s) (c * 4 + 1) = Fin 0
           \<and> rd (Q s) (c * 4 + 2) = Fin 0 \<and> rd (Q s) (c * 4 + 3) = Fin e)"

text \<open>
  A cell as the stability check leaves it when it passes: a finite density of at least
  \<open>0.05\<close>, momenta that are not NaN and, when both momenta are finite, a finite energy
  with a pressure \<open>(\<gamma> - 1)(E - \<rho>(u\<^sup>2 + v\<^sup>2)/2)\<close> of at least \<open>100\<close>.
\<close>

definition checkedCell :: "f32array \<Rightarrow> int \<Rightarrow> bool" where
  "checkedCell q c =
     (case rd q (c * 4) of
        Fin r \<Rightarrow>
          5 / 100 \<le> r \<and> \<not> isNaN (rd q (c * 4 + 1)) \<and> \<not> isNaN (rd q (c * 4 + 2))
          \<and> (case (rd q (c * 4 + 1), rd q (c * 4 + 2), rd q (c * 4 + 3)) of
                (Fin mx, Fin my, Fin e) \<Rightarrow>
                  100 \<le> (2 / 5) * (e - (1 / 2) * r * (mx / r * (mx / r) + my / r * (my / r)))
              | (Fin mx, Fin my, _) \<Rightarrow> False
              | _ \<Rightarrow> True)
      | _ \<Rightarrow> False)"

text \<open>The mode strings that \<^verbatim>\<open>getScalarField\<close> tests for.\<close>

definition supported :: "string set" where
  "supported = {''density'', ''pressure'', ''velocity'', ''temperature'', ''mach'', ''schlieren''}"

section \<open>Facts about numbers, arrays and the flux steps\<close>

lemma Math_max_Fin [simp]: "Math_max (Fin a) (Fin b) = Fin (max a b)"
  by (simp add: Math_max_def max_def)

lemma Math_min_Fin [simp]: "Math_min (Fin a) (Fin b) = Fin (min a b)"
  by (auto simp add: Math_min_def min_def)

lemma sub_Fin [simp]: "sub (Fin a) (Fin b) = Fin (a - b)"
  by (simp add: sub_def)

lemma getPressure_Fin:
  "getPressure (Fin r) (Fin mx) (Fin my) (Fin e) =
     Fin (max 10 ((2 / 5) * (e - (1 / 2) * (mx * mx + my * my) / max (1 / 10000) r)))"
proof -
  have "max (1 / 10000) r \<noteq> 0" by (simp add: max_def)
  then show ?thesis
    by (simp add: getPressure_def PHYSICS_GAMMA_def Let_def)
qed

lemma mul_Fin_zero: "isFinite x \<Longrightarrow> mul x (Fin 0) = Fin 0"
  by (cases x) simp_all

lemma isFinite_entropyFix: "0 < d \<Longrightarrow> isFinite (entropyFix (Fin d) (Fin l))"
  by (simp add: entropyFix_def)

lemma facePrimitives_Fin:
  assumes "rd (Q s) idx = Fin ro" "rd (Q s) (idx + 1) = Fin mx"
          "rd (Q s) (idx + 2) = Fin my" "rd (Q s) (idx + 3) = Fin e"
      and "r = max (1 / 1000000) ro"
      and "getPressure (Fin r) (Fin mx) (Fin my) (Fin e) = Fin pr"
  shows "facePrimitives s idx = (Fin r, Fin (mx / r), Fin (my / r), Fin pr, Fin ((e + pr) / r))"
proof -
  have "r \<noteq> 0" using assms(5) by (simp add: max_def)
  then show ?thesis
    using assms(6) by (simp add: facePrimitives_def Let_def assms(1-4) assms(5) [symmetric])
qed

lemma roeAverage_equal:
  assumes "0 < r"
  shows "\<exists>um vm hm q2 c sr. 0 < c \<and> 0 < sr \<and>
           roeAverage (Fin r) (Fin vn) (Fin vt) (Fin h) (Fin r) (Fin vn) (Fin vt) (Fin h)
             = (Fin um, Fin vm, Fin hm, Fin q2, Fin c, Fin sr, Fin sr)"
proof -
  have sr0: "0 < sqrt r" using assms by simp
  have den: "sqrt r + sqrt r + 1 / 1000000000 \<noteq> 0" "2 * sqrt r + 1 / 1000000000 \<noteq> 0"
    using sr0 by linarith+
  have mx: "\<not> max 50 x < 0" "0 < sqrt (max 50 x)" for x :: real
    by (simp_all add: less_max_iff_disj)
  show ?thesis
    using assms sr0 den
    by (simp add: roeAverage_def Let_def PHYSICS_GAMMA_def mx not_less [symmetric] less_imp_le less_asym)
qed

lemma eigenvalues_finite:
  assumes "0 < c"
  shows "\<exists>l1 l2 l3 l4. eigenvalues (Fin um) (Fin c) = (Fin l1, Fin l2, Fin l3, Fin l4)"
proof -
  have "(1 / 4) * (\<bar>um\<bar> + c) \<noteq> 0" using assms by simp
  then show ?thesis
    by (simp add: eigenvalues_def Let_def entropyFix_def)
qed

lemma waveAmplitudes_equal:
  assumes "0 < c"
  shows "waveAmplitudes (Fin r) (Fin vn) (Fin vt) (Fin pr) (Fin r) (Fin vn) (Fin vt) (Fin pr)
           (Fin sl) (Fin sr) (Fin c) = (Fin 0, Fin 0, Fin 0, Fin 0)"
  using assms by (simp add: waveAmplitudes_def Let_def)

lemma dissipation_zero:
  "dissipation (Fin l1, Fin l2, Fin l3, Fin l4) (Fin 0, Fin 0, Fin 0, Fin 0)
     (Fin um) (Fin vm) (Fin h) (Fin q2) (Fin c) = (Fin 0, Fin 0, Fin 0, Fin 0)"
  by (simp add: dissipation_def)

lemma fluxAverage_equal:
  "fluxAverage (physicalFlux (Fin r) (Fin vn) (Fin vt) (Fin pr) (Fin h))
     (physicalFlux (Fin r) (Fin vn) (Fin vt) (Fin pr) (Fin h)) (Fin 0, Fin 0, Fin 0, Fin 0)
   = (Fin (r * vn), Fin (r * vn * vn + pr), Fin (r * vn * vt), Fin (r * vn * h))"
  by (simp add: fluxAverage_def physicalFlux_def)

text \<open>Equal cells on both sides of a face.\<close>

lemma roeWaves_equal_cells:
  assumes L: "rd (Q s) idxL = Fin ro" "rd (Q s) (idxL + 1) = Fin mx"
             "rd (Q s) (idxL + 2) = Fin my" "rd (Q s) (idxL + 3) = Fin e"
      and R: "rd (Q s) idxR = Fin ro" "rd (Q s) (idxR + 1) = Fin mx"
             "rd (Q s) (idxR + 2) = Fin my" "rd (Q s) (idxR + 3) = Fin e"
      and r: "r = max (1 / 1000000) ro"
      and pr: "getPressure (Fin r) (Fin mx) (Fin my) (Fin e) = Fin pr"
      and un: "vn = (mx / r) * a + (my / r) * b"
      and ab: "(a, b) = (1, 0) \<or> (a, b) = (0, 1)"
  shows "roeWaves s idxL idxR (Fin a) (Fin b) =
           Some ((Fin 0, Fin 0, Fin 0, Fin 0), (Fin 0, Fin 0, Fin 0, Fin 0),
                 (Fin (r * vn), Fin (r * vn * (mx / r) + pr * a),
                  Fin (r * vn * (my / r) + pr * b), Fin (r * vn * ((e + pr) / r))))"
proof -
  have r0: "0 < r" using r by (simp add: max_def)
  define ux where "ux = mx / r"
  define uy where "uy = my / r"
  define hh where "hh = (e + pr) / r"
  define vt where "vt = - ux * b + uy * a"
  have vn: "vn = ux * a + uy * b" by (simp add: un ux_def uy_def)
  have fpL: "facePrimitives s idxL = (Fin r, Fin ux, Fin uy, Fin pr, Fin hh)"
    unfolding ux_def uy_def hh_def by (rule facePrimitives_Fin [OF L r pr])
  have fpR: "facePrimitives s idxR = (Fin r, Fin ux, Fin uy, Fin pr, Fin hh)"
    unfolding ux_def uy_def hh_def by (rule facePrimitives_Fin [OF R r pr])
  have rot: "rotateToNormal (Fin ux) (Fin uy) (Fin a) (Fin b) = (Fin vn, Fin vt)"
    by (simp add: rotateToNormal_def vn vt_def)
  obtain um vm hm q2 c sr where c: "0 < c"
    and avg: "roeAverage (Fin r) (Fin vn) (Fin vt) (Fin hh) (Fin r) (Fin vn) (Fin vt) (Fin hh)
             = (Fin um, Fin vm, Fin hm, Fin q2, Fin c, Fin sr, Fin sr)"
    using roeAverage_equal [OF r0] by blast
  obtain l1 l2 l3 l4 where ev: "eigenvalues (Fin um) (Fin c) = (Fin l1, Fin l2, Fin l3, Fin l4)"
    using eigenvalues_finite [OF c] by blast
  have rb: "rotateBack (Fin (r * vn), Fin (r * vn * vn + pr), Fin (r * vn * vt), Fin (r * vn * hh)) (Fin a) (Fin b)
     = (Fin (r * vn), Fin (r * vn * ux + pr * a), Fin (r * vn * uy + pr * b), Fin (r * vn * hh))"
    using ab by (auto simp add: rotateBack_def vn vt_def)
  have "roeWaves s idxL idxR (Fin a) (Fin b) =
           Some ((Fin 0, Fin 0, Fin 0, Fin 0), (Fin 0, Fin 0, Fin 0, Fin 0),
                 (Fin (r * vn), Fin (r * vn * ux + pr * a), Fin (r * vn * uy + pr * b),
                  Fin (r * vn * hh)))"
    unfolding roeWaves_def fpL fpR
    by (simp add: Let_def rot avg ev waveAmplitudes_equal [OF c] dissipation_zero
        fluxAverage_equal rb)
  then show ?thesis unfolding ux_def uy_def hh_def .
qed

lemma length_wr [simp]: "length (wr a i x) = length a"
  by (simp add: wr_def)

lemma rd_wr: "rd (wr a i x) j = (if i = j \<and> 0 \<le> i \<and> i < int (length a) then x else rd a j)"
  by (auto simp: rd_def wr_def nth_list_update)

lemma rd_wr_other: "i \<noteq> j \<Longrightarrow> rd (wr a i x) j = rd a j"
  by (simp add: rd_wr)

lemma rd_wr_same: "0 \<le> i \<Longrightarrow> i < int (length a) \<Longrightarrow> rd (wr a i x) i = x"
  by (simp add: rd_wr)

lemma length_applyFlux [simp]: "length (applyFlux r flux idxL idxR qn) = length qn"
  by (cases flux) (simp add: applyFlux_def Let_def)



lemma face_indices:
  assumes "0 \<le> j" "j < (if isX then ny s else nx s)"
      and "0 \<le> i" "i < (if isX then nx s else ny s) - 1"
  shows "0 \<le> faceIdxL s isX j i"
    and "faceIdxL s isX j i + 4 \<le> faceIdxR s isX j i"
    and "faceIdxR s isX j i + 3 < 4 * nx s * ny s"
proof -
  have nxp: "0 < nx s" and nyp: "0 < ny s" using assms by (auto split: if_splits)
  show "0 \<le> faceIdxL s isX j i"
    using assms nxp by (simp add: faceIdxL_def)
  show "faceIdxL s isX j i + 4 \<le> faceIdxR s isX j i"
    using nxp by (simp add: faceIdxL_def faceIdxR_def algebra_simps)
  show "faceIdxR s isX j i + 3 < 4 * nx s * ny s"
  proof (cases isX)
    case True
    then have "j + 1 \<le> ny s" "i + 2 \<le> nx s" using assms by simp_all
    then have "j * nx s \<le> (ny s - 1) * nx s" using nxp by (intro mult_right_mono) simp_all
    then have "j * nx s + i + 2 \<le> ny s * nx s" using \<open>i + 2 \<le> nx s\<close> by (simp add: algebra_simps)
    then show ?thesis using True by (simp add: faceIdxR_def algebra_simps)
  next
    case False
    then have "j + 1 \<le> nx s" "i + 2 \<le> ny s" using assms by simp_all
    then have "(i + 1) * nx s \<le> (ny s - 1) * nx s" using nxp by (intro mult_right_mono) simp_all
    then have "(i + 1) * nx s + j + 1 \<le> ny s * nx s" using \<open>j + 1 \<le> nx s\<close> by (simp add: algebra_simps)
    then show ?thesis using False by (simp add: faceIdxR_def algebra_simps)
  qed
qed


lemma rd_replicate: "rd (replicate n x) i = (if 0 \<le> i \<and> i < int n then x else NaN)"
  by (auto simp add: rd_def)

lemma fresh44_fields [simp]:
  "nx fresh44 = 4" "ny fresh44 = 4" "Q fresh44 = replicate 64 (Fin 0)"
  "Q_new fresh44 = replicate 64 (Fin 0)" "t fresh44 = Fin 0"
  "dx fresh44 = Fin (9 / 40)" "dy fresh44 = Fin (9 / 40)"
  by (simp_all add: fresh44_def)

text \<open>On a field of zeros every face carries the flux of the clamped pressure alone.\<close>

lemma roeFlux1D_zero_cells:
  assumes zL: "\<And>m. idxL \<le> m \<Longrightarrow> m < idxL + 4 \<Longrightarrow> rd (Q s) m = Fin 0"
      and zR: "\<And>m. idxR \<le> m \<Longrightarrow> m < idxR + 4 \<Longrightarrow> rd (Q s) m = Fin 0"
      and ab: "(a, b) = (1, 0) \<or> (a, b) = (0, 1)"
  shows "roeFlux1D s idxL idxR (Fin a) (Fin b) = (Fin 0, Fin (10 * a), Fin (10 * b), Fin 0)"
proof -
  have L: "rd (Q s) idxL = Fin 0" "rd (Q s) (idxL + 1) = Fin 0"
          "rd (Q s) (idxL + 2) = Fin 0" "rd (Q s) (idxL + 3) = Fin 0"
    by (rule zL; simp)+
  have R: "rd (Q s) idxR = Fin 0" "rd (Q s) (idxR + 1) = Fin 0"
          "rd (Q s) (idxR + 2) = Fin 0" "rd (Q s) (idxR + 3) = Fin 0"
    by (rule zR; simp)+
  have pr: "getPressure (Fin (1 / 1000000)) (Fin 0) (Fin 0) (Fin 0) = Fin 10"
    by (simp add: getPressure_Fin)
  have "roeWaves s idxL idxR (Fin a) (Fin b) =
          Some ((Fin 0, Fin 0, Fin 0, Fin 0), (Fin 0, Fin 0, Fin 0, Fin 0),
                (Fin 0, Fin (10 * a), Fin (10 * b), Fin 0))"
    using roeWaves_equal_cells [OF L R _ pr _ ab, where vn = 0] by simp
  then show ?thesis by (simp add: roeFlux1D_def)
qed

lemma wr_replicate_same: "wr (replicate n x) i x = replicate n x"
  by (auto simp: wr_def list_eq_iff_nth_eq nth_list_update)

lemma MAX_VALUE_pos: "(0::real) < 2 ^ 1024 - 2 ^ 971"
proof -
  have "(2::real) ^ 971 < 2 ^ 1024" by (rule power_strict_increasing) simp_all
  then show ?thesis by simp
qed

lemma scalarValue_other: "mode \<notin> supported \<Longrightarrow> scalarValue s mode i = Fin 0"
  by (simp add: scalarValue_def supported_def Let_def)

lemma scalar_loop_other:
  assumes "mode \<notin> supported"
  shows "for_loop (Suc n) (scalarCell s mode) (replicate m (Fin 0), Number_MAX_VALUE, neg Number_MAX_VALUE)
         = (replicate m (Fin 0), Fin 0, Fin 0)"
proof (induction n)
  case 0
  show ?case using MAX_VALUE_pos
    by (simp add: scalarCell_def scalarValue_other [OF assms] wr_replicate_same Number_MAX_VALUE_def Let_def)
next
  case (Suc n)
  have "for_loop (Suc (Suc n)) (scalarCell s mode) (replicate m (Fin 0), Number_MAX_VALUE, neg Number_MAX_VALUE)
      = scalarCell s mode (int (Suc n)) (for_loop (Suc n) (scalarCell s mode) (replicate m (Fin 0), Number_MAX_VALUE, neg Number_MAX_VALUE))"
    by (simp only: for_loop.simps)
  also have "\<dots> = (replicate m (Fin 0), Fin 0, Fin 0)"
    unfolding Suc.IH
    by (simp add: scalarCell_def scalarValue_other [OF assms] wr_replicate_same Let_def)
  finally show ?case .
qed

lemma for_loop_numeral:
  "for_loop (numeral k) body s = body (int (pred_numeral k)) (for_loop (pred_numeral k) body s)"
  by (simp add: numeral_eq_Suc)

lemma scalarValue_temperature_zero:
  assumes "rd (Q s) (i * 4) = Fin 0" "rd (Q s) (i * 4 + 1) = Fin 0"
          "rd (Q s) (i * 4 + 2) = Fin 0" "rd (Q s) (i * 4 + 3) = Fin 0"
  shows "scalarValue s ''temperature'' i = PInf"
  using assms by (simp add: scalarValue_def Let_def getPressure_Fin PHYSICS_R_def)

lemma scalarValue_temperature_fresh44:
  "0 \<le> i \<Longrightarrow> i < 16 \<Longrightarrow> scalarValue fresh44 ''temperature'' i = PInf"
  by (rule scalarValue_temperature_zero) (simp_all add: rd_replicate)

lemma infEnergy_prims:
  "facePrimitives infEnergy 0 = (Fin 1, Fin 0, Fin 0, PInf, PInf)"
  "facePrimitives infEnergy 4 = (Fin 1, Fin 0, Fin 0, Fin 100000, Fin 350000)"
  by (simp_all add: facePrimitives_def infEnergy_def twoCells_def rd_def Let_def getPressure_def
      PHYSICS_GAMMA_def Math_max_def sub_def inf_times_def)

section \<open>Conservative face updates\<close>




section \<open>The flux between equal cells\<close>




section \<open>Unsupported modes of the scalar field\<close>

text \<open>
  Claim C10.  On a solver with \<open>nx \<sqdot> ny \<ge> 1\<close> and for a mode string that is none of the
  six supported ones, \<^verbatim>\<open>getScalarField\<close> does not fail and returns an array of
  \<open>nx \<sqdot> ny\<close> zeros together with the minimum \<open>0\<close> and the maximum \<open>0\<close>.  The function
  reads the solver and returns only this triple: it has no successor state, so \<open>Q\<close>,
  \<open>Q_new\<close> and \<open>t\<close> are as before.
\<close>

theorem getScalarField_unsupported_mode:
  assumes "1 \<le> nx s * ny s"
      and "mode \<notin> supported"
  shows "getScalarField s mode = Inr (replicate (nat (nx s * ny s)) (Fin 0), Fin 0, Fin 0)"
proof -
  obtain n where n: "nat (nx s * ny s) = Suc n"
    using assms(1) by (cases "nat (nx s * ny s)") auto
  have "for_loop (nat (nx s * ny s)) (scalarCell s mode)
          (replicate (nat (nx s * ny s)) (Fin 0), Number_MAX_VALUE, neg Number_MAX_VALUE)
        = (replicate (nat (nx s * ny s)) (Fin 0), Fin 0, Fin 0)"
    using scalar_loop_other [OF assms(2), of n s "nat (nx s * ny s)"] by (simp only: n)
  then show ?thesis using assms(1)
    by (simp add: getScalarField_def)
qed


theorem getScalarField_unsupported_mode_witness:
  "1 \<le> nx fresh44 * ny fresh44 \<and> ''vorticity'' \<notin> supported
   \<and> getScalarField fresh44 ''vorticity'' = Inr (replicate 16 (Fin 0), Fin 0, Fin 0)"
  using getScalarField_unsupported_mode [of fresh44 "''vorticity''"]
  by (simp add: supported_def)

section \<open>The state after construction\<close>




section \<open>Arguments are not validated\<close>




section \<open>The safety check of the flux kernel\<close>

text \<open>
  Claim C5, as stated, fails for an infinite pressure: the kernel tests the two pressures
  with \<^verbatim>\<open>isNaN\<close> only.  With total energy \<open>+\<infinity>\<close> in the left cell the helper returns the
  pressure \<open>+\<infinity>\<close>, which is not finite, and the kernel returns a flux of four NaNs, not
  the zero flux.
\<close>

theorem infinite_pressure_not_caught:
  "facePrimitives infEnergy 0 = (Fin 1, Fin 0, Fin 0, PInf, PInf)
   \<and> \<not> isFinite PInf
   \<and> roeFlux1D infEnergy 0 4 (Fin 1) (Fin 0) = (NaN, NaN, NaN, NaN)
   \<and> roeFlux1D infEnergy 0 4 (Fin 1) (Fin 0) \<noteq> (Fin 0, Fin 0, Fin 0, Fin 0)"
proof -
  have avg: "roeAverage (Fin 1) (Fin 0) (Fin 0) PInf (Fin 1) (Fin 0) (Fin 0) (Fin 350000)
       = (Fin 0, Fin 0, PInf, Fin 0, PInf, Fin 1, Fin 1)"
    by (simp add: roeAverage_def Let_def PHYSICS_GAMMA_def inf_times_def Math_max_def sub_def)
  have ev: "eigenvalues (Fin 0) PInf = (PInf, NaN, NaN, PInf)"
    by (simp add: eigenvalues_def Let_def entropyFix_def inf_times_def sub_def)
  have wa: "waveAmplitudes (Fin 1) (Fin 0) (Fin 0) PInf (Fin 1) (Fin 0) (Fin 0) (Fin 100000) (Fin 1) (Fin 1) PInf
       = (NaN, NaN, Fin 0, NaN)"
    by (simp add: waveAmplitudes_def Let_def inf_times_def sub_def)
  have "roeFlux1D infEnergy 0 4 (Fin 1) (Fin 0) = (NaN, NaN, NaN, NaN)"
    by (simp add: roeFlux1D_def roeWaves_def infEnergy_prims rotateToNormal_def avg ev wa Let_def
        dissipation_def physicalFlux_def fluxAverage_def rotateBack_def inf_times_def sub_def)
  then show ?thesis by (simp add: infEnergy_prims)
qed

text \<open>
  Claim C5, amended.  For every pair of cells and every face normal: if the pressure that
  the helper computes for the left side or for the right side is NaN, the kernel returns
  the zero flux.
\<close>

theorem nan_pressure_zero_flux:
  assumes "facePrimitives s idxL = (rL, uL, vL, pL, hL)"
      and "facePrimitives s idxR = (rR, uR, vR, pR, hR)"
      and "isNaN pL \<or> isNaN pR"
  shows "roeFlux1D s idxL idxR dirX dirY = (Fin 0, Fin 0, Fin 0, Fin 0)"
  using assms by (simp add: roeFlux1D_def roeWaves_def)

theorem nan_pressure_zero_flux_witness:
  "facePrimitives nanEnergy 0 = (Fin 1, Fin 0, Fin 0, NaN, NaN)
   \<and> roeFlux1D nanEnergy 0 4 (Fin 1) (Fin 0) = (Fin 0, Fin 0, Fin 0, Fin 0)"
proof -
  have L: "facePrimitives nanEnergy 0 = (Fin 1, Fin 0, Fin 0, NaN, NaN)"
    by (simp add: facePrimitives_def nanEnergy_def twoCells_def rd_def Let_def getPressure_def
      PHYSICS_GAMMA_def Math_max_def sub_def)
  obtain rR uR vR pR hR where R: "facePrimitives nanEnergy 4 = (rR, uR, vR, pR, hR)"
    by (cases "facePrimitives nanEnergy 4") auto
  show ?thesis
    using nan_pressure_zero_flux [OF L R, of "Fin 1" "Fin 0"] L by simp
qed

section \<open>The temperature of a cell without mass\<close>

text \<open>
  Claim C6 at the solver that \<^verbatim>\<open>new FluidSolver(4, 4)\<close> returns, whose cells all have
  density \<open>0\<close>: the branches for velocity and Mach number divide by \<open>\<rho> + 10\<^sup>-\<^sup>9\<close>, but the
  branch for temperature divides by \<open>\<rho> \<sqdot> R\<close>, so every entry of the temperature field is
  \<open>+\<infinity>\<close>; the observed maximum is \<open>+\<infinity>\<close> and the minimum stays at its initial value
  \<^verbatim>\<open>Number.MAX_VALUE\<close>.
\<close>

theorem temperature_of_zero_density:
  "getScalarField fresh44 ''temperature'' = Inr (replicate 16 PInf, Number_MAX_VALUE, PInf)"
  by (simp add: getScalarField_def for_loop_numeral scalarCell_def scalarValue_temperature_fresh44
      Number_MAX_VALUE_def wr_def eval_nat_numeral)

section \<open>Loops and the boundary imprint\<close>

lemma for_loop_invariant:
  assumes "P s0" and "\<And>k x. k < n \<Longrightarrow> P x \<Longrightarrow> P (body (int k) x)"
  shows "P (for_loop n body s0)"
  using assms by (induction n) simp_all

lemma length_for_loop:
  assumes "\<And>k q. length (body k q) = length q"
  shows "length (for_loop n body q) = length q"
  by (rule for_loop_invariant) (simp_all add: assms)

lemma for_loop_frame:
  assumes "\<And>k q. k < n \<Longrightarrow> rd (body (int k) q) m = rd q m"
  shows "rd (for_loop n body q) m = rd q m"
  by (rule for_loop_invariant) (simp_all add: assms)

lemma for_loop_final:
  assumes "j < n"
      and "\<And>k q. j < k \<Longrightarrow> k < n \<Longrightarrow> rd (body (int k) q) m = rd q m"
  shows "rd (for_loop n body q) m = rd (body (int j) (for_loop j body q)) m"
  using assms
proof (induction n)
  case 0
  then show ?case by simp
next
  case (Suc n)
  show ?case
  proof (cases "j = n")
    case True
    then show ?thesis by simp
  next
    case False
    then have jn: "j < n" using Suc.prems(1) by simp
    have "rd (for_loop (Suc n) body q) m = rd (for_loop n body q) m"
      using Suc.prems(2) [of n] jn by simp
    also have "\<dots> = rd (body (int j) (for_loop j body q)) m"
      using Suc.IH [OF jn] Suc.prems(2) by simp
    finally show ?thesis .
  qed
qed

text \<open>Rows of the grid do not overlap.\<close>

lemma row_below:
  fixes k j n :: int
  assumes "k < j" "0 \<le> n"
  shows "k * n + n \<le> j * n"
proof -
  have "(k + 1) * n \<le> j * n" using assms by (intro mult_right_mono) simp_all
  then show ?thesis by (simp add: algebra_simps)
qed

subsection \<open>The inlet column\<close>

lemma length_inletCell [simp]: "length (inletCell s j q) = length q"
  by (simp add: inletCell_def Let_def)

lemma inletCell_frame:
  assumes "m < j * nx s * 4 \<or> j * nx s * 4 + 3 < m"
  shows "rd (inletCell s j q) m = rd q m"
  using assms by (auto simp add: inletCell_def Let_def rd_wr_other)

lemma inletCell_wall:
  assumes wall: "\<not> \<bar>j - ny s div 2\<bar> \<le> ny s div 8"
      and idx: "idx = j * nx s * 4" "0 \<le> idx" "idx + 7 < int (length q)"
  shows "rd (inletCell s j q) idx = rd q (idx + 4)"
    and "rd (inletCell s j q) (idx + 1) = Fin 0"
    and "rd (inletCell s j q) (idx + 2) = rd q (idx + 6)"
    and "rd (inletCell s j q) (idx + 3) =
           computeEnergy (rd q (idx + 4)) (Fin 0) (divide (rd q (idx + 6)) (rd q (idx + 4)))
             (getPressure (rd q (idx + 4)) (rd q (idx + 5)) (rd q (idx + 6)) (rd q (idx + 7)))"
  using wall idx(2,3)
  by (simp_all add: inletCell_def Let_def idx(1) [symmetric] rd_wr_other rd_wr_same add.commute)

subsection \<open>The outlet column and the far field\<close>

lemma length_outletCell [simp]: "length (outletCell s j q) = length q"
  by (simp add: outletCell_def Let_def)

lemma outletCell_frame:
  assumes "m < (j * nx s + nx s - 1) * 4 \<or> (j * nx s + nx s - 1) * 4 + 3 < m"
  shows "rd (outletCell s j q) m = rd q m"
  using assms by (auto simp add: outletCell_def Let_def rd_wr_other)

lemma length_farFieldCell [simp]: "length (farFieldCell s i q) = length q"
  by (simp add: farFieldCell_def Let_def)

lemma farFieldCell_frame:
  assumes "m < i * 4 \<or> i * 4 + 3 < m"
      and "m < ((ny s - 1) * nx s + i) * 4 \<or> ((ny s - 1) * nx s + i) * 4 + 3 < m"
  shows "rd (farFieldCell s i q) m = rd q m"
  using assms by (auto simp add: farFieldCell_def Let_def rd_wr_other)

lemma lin_apart:
  fixes a b n i :: int
  assumes "3 \<le> n" "a + n \<le> b"
  shows "a * 4 + 3 < b * 4" and "a * 4 + 7 < b * 4" and "(a + n - 1) * 4 + 3 < b * 4"
    and "0 \<le> i \<Longrightarrow> a * 4 + 7 < (b + i) * 4"
  using assms by simp_all

lemma lin_apart':
  fixes a b n :: int
  assumes "3 \<le> n" "a \<le> b"
  shows "a * 4 + 7 < (b + n - 1) * 4"
  using assms by simp

lemma rows_apart:
  fixes n j k :: int
  assumes "3 \<le> n" "k \<noteq> j"
  shows "k * n * 4 + 3 < j * n * 4 \<or> j * n * 4 + 7 < k * n * 4"
proof (cases "k < j")
  case True
  then have "k * n + n \<le> j * n" using assms by (intro row_below) simp_all
  with assms(1) have "k * n * 4 + 3 < j * n * 4" by linarith
  then show ?thesis ..
next
  case False
  then have "j < k" using assms by simp
  then have "j * n + n \<le> k * n" using assms by (intro row_below) simp_all
  with assms(1) have "j * n * 4 + 7 < k * n * 4" by linarith
  then show ?thesis ..
qed

lemma outlet_apart:
  fixes n j k :: int
  assumes "3 \<le> n"
  shows "(k * n + n - 1) * 4 + 3 < j * n * 4 \<or> j * n * 4 + 7 < (k * n + n - 1) * 4"
proof (cases "k < j")
  case True
  then have "k * n + n \<le> j * n" using assms by (intro row_below) simp_all
  with assms have "(k * n + n - 1) * 4 + 3 < j * n * 4" by (intro lin_apart)
  then show ?thesis ..
next
  case False
  then have "j \<le> k" by simp
  then have "j * n \<le> k * n" using assms by (intro mult_right_mono) simp_all
  with assms have "j * n * 4 + 7 < (k * n + n - 1) * 4" by (intro lin_apart')
  then show ?thesis ..
qed

lemma far_field_apart:
  fixes n j i h :: int
  assumes "3 \<le> n" "0 < j" "j < h - 1" "0 \<le> i" "i < n"
  shows "i * 4 + 3 < j * n * 4" and "j * n * 4 + 7 < ((h - 1) * n + i) * 4"
proof -
  have "0 * n + n \<le> j * n" using assms by (intro row_below) simp_all
  with assms show "i * 4 + 3 < j * n * 4" by linarith
  have "j * n + n \<le> (h - 1) * n" using assms by (intro row_below) simp_all
  with assms show "j * n * 4 + 7 < ((h - 1) * n + i) * 4" by (intro lin_apart)
qed

lemma length_applyBoundaryConditions [simp]:
  "length (Q_new (applyBoundaryConditions s)) = length (Q_new s)"
  by (simp add: applyBoundaryConditions_def Let_def length_for_loop)

lemma applyBoundaryConditions_fields [simp]:
  "Q (applyBoundaryConditions s) = Q s" "t (applyBoundaryConditions s) = t s"
  "nx (applyBoundaryConditions s) = nx s" "ny (applyBoundaryConditions s) = ny s"
  "ambientState (applyBoundaryConditions s) = ambientState s"
  "inletState (applyBoundaryConditions s) = inletState s"
  by (simp_all add: applyBoundaryConditions_def Let_def)

text \<open>A wall row strictly between the bottom and the top row, and its cell in column 1.\<close>

lemma applyBoundaryConditions_wall_row:
  assumes n3: "3 \<le> nx s"
      and j: "0 < j" "j < ny s - 1"
      and wall: "\<not> \<bar>j - ny s div 2\<bar> \<le> ny s div 8"
      and len: "int (length (Q_new s)) = 4 * nx s * ny s"
      and idx: "idx = j * nx s * 4"
  shows "rd (Q_new (applyBoundaryConditions s)) idx = rd (Q_new s) (idx + 4)"
    and "rd (Q_new (applyBoundaryConditions s)) (idx + 1) = Fin 0"
    and "rd (Q_new (applyBoundaryConditions s)) (idx + 2) = rd (Q_new s) (idx + 6)"
    and "rd (Q_new (applyBoundaryConditions s)) (idx + 3) =
           computeEnergy (rd (Q_new s) (idx + 4)) (Fin 0)
             (divide (rd (Q_new s) (idx + 6)) (rd (Q_new s) (idx + 4)))
             (getPressure (rd (Q_new s) (idx + 4)) (rd (Q_new s) (idx + 5))
                (rd (Q_new s) (idx + 6)) (rd (Q_new s) (idx + 7)))"
    and "\<And>m. idx + 4 \<le> m \<Longrightarrow> m \<le> idx + 7 \<Longrightarrow>
           rd (Q_new (applyBoundaryConditions s)) m = rd (Q_new s) m"
proof -
  define q where "q = Q_new s"
  define q1 where "q1 = for_loop (nat (ny s)) (inletCell s) q"
  define q2 where "q2 = for_loop (nat (ny s)) (outletCell s) q1"
  define q3 where "q3 = for_loop (nat (nx s)) (farFieldCell s) q2"
  define qj where "qj = for_loop (nat j) (inletCell s) q"
  have q3: "Q_new (applyBoundaryConditions s) = q3"
    by (simp add: applyBoundaryConditions_def Let_def q3_def q2_def q1_def q_def)
  have win: "rd q3 m = rd q1 m" if "idx \<le> m" "m \<le> idx + 7" for m
  proof -
    have "rd q3 m = rd q2 m"
      unfolding q3_def
    proof (rule for_loop_frame)
      fix k :: nat and x assume "k < nat (nx s)"
      then have "0 \<le> int k" "int k < nx s" by simp_all
      from far_field_apart [OF n3 j this] that show "rd (farFieldCell s (int k) x) m = rd x m"
        by (intro farFieldCell_frame) (simp_all add: idx)
    qed
    also have "\<dots> = rd q1 m"
      unfolding q2_def
    proof (rule for_loop_frame)
      fix k :: nat and x
      from outlet_apart [OF n3, of "int k" j] that show "rd (outletCell s (int k) x) m = rd x m"
        by (intro outletCell_frame) (auto simp add: idx)
    qed
    finally show ?thesis .
  qed
  have other: "rd (inletCell s (int k) x) m = rd x m" if "int k \<noteq> j" "idx \<le> m" "m \<le> idx + 7" for k x m
    using rows_apart [OF n3 that(1)] that(2,3) by (intro inletCell_frame) (auto simp add: idx)
  have col1: "rd q1 m = rd q m" "rd qj m = rd q m" if "idx + 4 \<le> m" "m \<le> idx + 7" for m
  proof -
    show "rd q1 m = rd q m"
      unfolding q1_def
    proof (rule for_loop_frame)
      fix k :: nat and x
      show "rd (inletCell s (int k) x) m = rd x m"
      proof (cases "int k = j")
        case True
        then show ?thesis using that by (intro inletCell_frame) (simp add: idx)
      next
        case False
        then show ?thesis using that by (intro other) simp_all
      qed
    qed
    show "rd qj m = rd q m"
      unfolding qj_def
    proof (rule for_loop_frame)
      fix k :: nat and x assume "k < nat j"
      then have "int k \<noteq> j" by simp
      then show "rd (inletCell s (int k) x) m = rd x m" using that by (intro other) simp_all
    qed
  qed
  have jn: "nat j < nat (ny s)" using j by simp
  have col0: "rd q1 m = rd (inletCell s j qj) m" if "idx \<le> m" "m \<le> idx + 3" for m
  proof -
    have "rd q1 m = rd (inletCell s (int (nat j)) (for_loop (nat j) (inletCell s) q)) m"
      unfolding q1_def
    proof (rule for_loop_final [OF jn])
      fix k :: nat and x assume "nat j < k"
      then have "int k \<noteq> j" by simp
      then show "rd (inletCell s (int k) x) m = rd x m" using that by (intro other) simp_all
    qed
    then show ?thesis using j by (simp add: qj_def)
  qed
  have lenj: "length qj = length q"
    by (simp add: qj_def length_for_loop)
  have "0 * nx s + nx s \<le> j * nx s" using j n3 by (intro row_below) simp_all
  then have idx0: "0 \<le> idx" using n3 by (simp add: idx)
  have "j * nx s + nx s \<le> (ny s - 1) * nx s" using j n3 by (intro row_below) simp_all
  then have "j * nx s * 4 + 4 * nx s \<le> 4 * nx s * ny s - 4 * nx s" by (simp add: algebra_simps)
  then have idx7: "idx + 7 < int (length qj)" using n3 by (simp add: lenj q_def len idx)
  note w = inletCell_wall [OF wall idx idx0 idx7]
  show "rd (Q_new (applyBoundaryConditions s)) idx = rd (Q_new s) (idx + 4)"
    using win [of idx] col0 [of idx] w(1) col1(2) [of "idx + 4"] by (simp add: q3 q_def)
  show "rd (Q_new (applyBoundaryConditions s)) (idx + 1) = Fin 0"
    using win [of "idx + 1"] col0 [of "idx + 1"] w(2) by (simp add: q3)
  show "rd (Q_new (applyBoundaryConditions s)) (idx + 2) = rd (Q_new s) (idx + 6)"
    using win [of "idx + 2"] col0 [of "idx + 2"] w(3) col1(2) [of "idx + 6"] by (simp add: q3 q_def)
  show "rd (Q_new (applyBoundaryConditions s)) (idx + 3) =
           computeEnergy (rd (Q_new s) (idx + 4)) (Fin 0)
             (divide (rd (Q_new s) (idx + 6)) (rd (Q_new s) (idx + 4)))
             (getPressure (rd (Q_new s) (idx + 4)) (rd (Q_new s) (idx + 5))
                (rd (Q_new s) (idx + 6)) (rd (Q_new s) (idx + 7)))"
    using win [of "idx + 3"] col0 [of "idx + 3"] w(4) col1(2) [of "idx + 4"] col1(2) [of "idx + 5"]
      col1(2) [of "idx + 6"] col1(2) [of "idx + 7"] by (simp add: q3 q_def)
  show "rd (Q_new (applyBoundaryConditions s)) m = rd (Q_new s) m"
    if "idx + 4 \<le> m" "m \<le> idx + 7" for m
    using win [of m] col1(1) [of m] that by (simp add: q3 q_def)
qed

lemma add_Fin_0 [simp]: "add x (Fin 0) = x"
  by (cases x) simp_all

lemma sub_Fin_0 [simp]: "sub x (Fin 0) = x"
  by (simp add: sub_def)

lemma isFinite_add: "isFinite a \<Longrightarrow> isFinite b \<Longrightarrow> isFinite (add a b)"
  by (cases a; cases b) simp_all

lemma isFinite_sub: "isFinite a \<Longrightarrow> isFinite b \<Longrightarrow> isFinite (sub a b)"
  by (cases a; cases b) simp_all

lemma isFinite_mul: "isFinite a \<Longrightarrow> isFinite b \<Longrightarrow> isFinite (mul a b)"
  by (cases a; cases b) simp_all

text \<open>Buffers whose entries are all finite.\<close>

lemma list_all_wr:
  assumes "list_all isFinite q" "0 \<le> i \<Longrightarrow> i < int (length q) \<Longrightarrow> isFinite x"
  shows "list_all isFinite (wr q i x)"
  using assms by (auto simp add: wr_def list_all_iff dest!: set_update_subset_insert [THEN subsetD])

lemma list_all_rd:
  assumes "list_all isFinite q" "0 \<le> i" "i < int (length q)"
  shows "isFinite (rd q i)"
  using assms by (simp add: rd_def list_all_length)

lemma applyFlux_finite:
  assumes "list_all isFinite q" "isFinite r"
      and "isFinite f0" "isFinite f1" "isFinite f2" "isFinite f3"
  shows "list_all isFinite (applyFlux r (f0, f1, f2, f3) idxL idxR q)"
  unfolding applyFlux_def Let_def prod.case
  by (intro list_all_wr isFinite_add isFinite_sub isFinite_mul list_all_rd assms) simp_all

lemma applyFlux_density_frame:
  assumes m: "m mod 4 = 0" and l: "idxL mod 4 = 0" and r: "idxR mod 4 = 0"
      and z: "mul r_dt_h f0 = Fin 0"
  shows "rd (applyFlux r_dt_h (f0, f1, f2, f3) idxL idxR q) m = rd q m"
proof -
  have ne: "idxL + 1 \<noteq> m" "idxL + 2 \<noteq> m" "idxL + 3 \<noteq> m"
           "idxR + 1 \<noteq> m" "idxR + 2 \<noteq> m" "idxR + 3 \<noteq> m"
    using m l r by presburger+
  have same: "rd (wr x i (rd x i)) m = rd x m" for x i
    by (simp add: rd_wr)
  show ?thesis
    by (simp add: applyFlux_def Let_def z rd_wr_other ne same)
qed

subsection \<open>Sweeps over a field of zeros\<close>

lemma faceIdx_mod4: "faceIdxL s isX j i mod 4 = 0" "faceIdxR s isX j i mod 4 = 0"
  by (simp_all add: faceIdxL_def faceIdxR_def)

lemma zero_field_flux:
  assumes Qz: "Q s = replicate N (Fin 0)" and len: "int N = 4 * nx s * ny s"
      and j: "0 \<le> j" "j < (if isX then ny s else nx s)"
      and i: "0 \<le> i" "i < (if isX then nx s else ny s) - 1"
      and ab: "(a, b) = (1, 0) \<or> (a, b) = (0, 1)"
  shows "roeFlux1D s (faceIdxL s isX j i) (faceIdxR s isX j i) (Fin a) (Fin b)
           = (Fin 0, Fin (10 * a), Fin (10 * b), Fin 0)"
proof (rule roeFlux1D_zero_cells [OF _ _ ab])
  note fi = face_indices [OF j i]
  show "rd (Q s) m = Fin 0" if "faceIdxL s isX j i \<le> m" "m < faceIdxL s isX j i + 4" for m
    using fi that by (simp add: Qz rd_replicate len)
  show "rd (Q s) m = Fin 0" if "faceIdxR s isX j i \<le> m" "m < faceIdxR s isX j i + 4" for m
    using fi that by (simp add: Qz rd_replicate len)
qed

lemma faceUpdate_zero_field:
  assumes Qz: "Q s = replicate N (Fin 0)" and len: "int N = 4 * nx s * ny s"
      and dir: "(dX, dY) = (Fin 1, Fin 0) \<or> (dX, dY) = (Fin 0, Fin 1)"
      and r: "isFinite r"
      and j: "0 \<le> j" "j < (if dX = Fin 1 then ny s else nx s)"
      and i: "0 \<le> i" "i < (if dX = Fin 1 then nx s else ny s) - 1"
  shows "length (faceUpdate s r dX dY j i x) = length x"
    and "m mod 4 = 0 \<Longrightarrow> rd (faceUpdate s r dX dY j i x) m = rd x m"
    and "list_all isFinite x \<Longrightarrow> list_all isFinite (faceUpdate s r dX dY j i x)"
proof -
  obtain a b where ab: "dX = Fin a" "dY = Fin b" "(a, b) = (1, 0) \<or> (a, b) = (0, 1)"
    using dir by auto
  have flux: "roeFlux1D s (faceIdxL s (dX = Fin 1) j i) (faceIdxR s (dX = Fin 1) j i) dX dY
           = (Fin 0, Fin (10 * a), Fin (10 * b), Fin 0)"
    unfolding ab(1,2) [symmetric, THEN eq_reflection]
    using zero_field_flux [OF Qz len j i ab(3)] by (simp add: ab)
  have fu: "faceUpdate s r dX dY j i x =
      applyFlux r (Fin 0, Fin (10 * a), Fin (10 * b), Fin 0)
        (faceIdxL s (dX = Fin 1) j i) (faceIdxR s (dX = Fin 1) j i) x"
    by (simp add: faceUpdate_def Let_def flux)
  show "length (faceUpdate s r dX dY j i x) = length x"
    by (simp add: fu)
  show "rd (faceUpdate s r dX dY j i x) m = rd x m" if "m mod 4 = 0"
    unfolding fu using that by (intro applyFlux_density_frame faceIdx_mod4 mul_Fin_zero r)
  show "list_all isFinite (faceUpdate s r dX dY j i x)" if "list_all isFinite x"
    unfolding fu using that r by (intro applyFlux_finite) simp_all
qed

lemma sweep_zero_field:
  assumes Qz: "Q s = replicate N (Fin 0)" and len: "int N = 4 * nx s * ny s"
      and dir: "(dX, dY) = (Fin 1, Fin 0) \<or> (dX, dY) = (Fin 0, Fin 1)"
      and r: "isFinite r"
      and q': "q' = for_loop (nat (if dX = Fin 1 then ny s else nx s))
                 (\<lambda>j. for_loop (nat ((if dX = Fin 1 then nx s else ny s) - 1))
                    (faceUpdate s r dX dY j)) q"
  shows "length q' = length q"
    and "m mod 4 = 0 \<Longrightarrow> rd q' m = rd q m"
    and "list_all isFinite q \<Longrightarrow> list_all isFinite q'"
proof -
  define P where "P x \<longleftrightarrow> length x = length q \<and> (m mod 4 = 0 \<longrightarrow> rd x m = rd q m)
      \<and> (list_all isFinite q \<longrightarrow> list_all isFinite x)" for x
  have "P q'"
    unfolding q'
  proof (rule for_loop_invariant)
    show "P q" by (simp add: P_def)
  next
    fix k x assume k: "k < nat (if dX = Fin 1 then ny s else nx s)" and x: "P x"
    show "P (for_loop (nat ((if dX = Fin 1 then nx s else ny s) - 1)) (faceUpdate s r dX dY (int k)) x)"
    proof (rule for_loop_invariant)
      show "P x" by (rule x)
    next
      fix l y assume l: "l < nat ((if dX = Fin 1 then nx s else ny s) - 1)" and y: "P y"
      have j: "0 \<le> int k" "int k < (if dX = Fin 1 then ny s else nx s)" using k by simp_all
      have i: "0 \<le> int l" "int l < (if dX = Fin 1 then nx s else ny s) - 1" using l by simp_all
      note fu = faceUpdate_zero_field [OF Qz len dir r j i]
      show "P (faceUpdate s r dX dY (int k) (int l) y)"
        using y fu(1) [of y] fu(2) [of m y] fu(3) [of y] by (simp add: P_def)
    qed
  qed
  then show "length q' = length q" "m mod 4 = 0 \<Longrightarrow> rd q' m = rd q m"
    "list_all isFinite q \<Longrightarrow> list_all isFinite q'"
    by (simp_all add: P_def)
qed

subsection \<open>The time step on a field of zeros\<close>

lemma cellSpeed_zero:
  assumes "rd (Q s) (i * 4) = Fin 0" "rd (Q s) (i * 4 + 1) = Fin 0"
          "rd (Q s) (i * 4 + 2) = Fin 0" "rd (Q s) (i * 4 + 3) = Fin 0"
  shows "cellSpeed s i (Fin mv) = Fin (max mv (sqrt 14000000))"
  using assms
  by (simp add: cellSpeed_def Let_def getPressure_Fin PHYSICS_GAMMA_def max_def)

lemma maxSpeed_zero_field:
  assumes Qz: "Q s = replicate N (Fin 0)" and n: "4 * n \<le> N"
  shows "\<exists>v. 0 \<le> v \<and> for_loop n (cellSpeed s) (Fin 0) = Fin v"
proof (rule for_loop_invariant [where P = "\<lambda>x. \<exists>v. 0 \<le> v \<and> x = Fin v"])
  show "\<exists>v. 0 \<le> v \<and> Fin 0 = Fin v" by simp
next
  fix k x assume k: "k < n" and "\<exists>v. 0 \<le> v \<and> x = Fin v"
  then obtain v where v: "0 \<le> v" "x = Fin v" by blast
  have "cellSpeed s (int k) (Fin v) = Fin (max v (sqrt 14000000))"
    using k n by (intro cellSpeed_zero) (simp_all add: Qz rd_replicate)
  then show "\<exists>v. 0 \<le> v \<and> cellSpeed s (int k) x = Fin v"
    using v by (auto simp add: le_max_iff_disj)
qed

lemma calculateTimeStep_fresh44:
  "\<exists>d. 0 < d \<and> calculateTimeStep fresh44 (Fin (1 / 2)) = Fin d"
proof -
  obtain v where v: "0 \<le> v" "for_loop 16 (cellSpeed fresh44) (Fin 0) = Fin v"
    using maxSpeed_zero_field [of fresh44 64 16] by auto
  have "0 < max 10 v" by (simp add: less_max_iff_disj)
  then have "0 < min (1 / 2 * (9 / 40) / max 10 v) (5 / 100000)" by simp
  moreover have "calculateTimeStep fresh44 (Fin (1 / 2)) = Fin (min (1 / 2 * (9 / 40) / max 10 v) (5 / 100000))"
    using \<open>0 < max 10 v\<close> by (simp add: calculateTimeStep_def Let_def v)
  ultimately show ?thesis by blast
qed

subsection \<open>The stability check\<close>

lemma length_fixCell [simp]: "length (snd (fixCell i q)) = length q"
  by (simp add: fixCell_def Let_def split: prod.splits)

lemma fixCell_frame:
  assumes "m < i * 4 \<or> i * 4 + 3 < m"
  shows "rd (snd (fixCell i q)) m = rd q m"
  using assms by (auto simp add: fixCell_def Let_def rd_wr_other split: prod.splits)

lemma fixCell_nan_energy:
  assumes "isNaN (rd q (i * 4 + 3))"
  shows "\<not> fst (fixCell i q)"
  using assms by (simp add: fixCell_def Let_def)

lemma fixLoop_frame:
  assumes "int n * 4 \<le> m"
  shows "rd (snd (fixLoop n q)) m = rd q m"
  using assms
proof (induction n)
  case 0
  then show ?case by simp
next
  case (Suc n)
  then have "rd (snd (fixLoop n q)) m = rd q m" by simp
  moreover have "rd (snd (fixCell (int n) (snd (fixLoop n q)))) m = rd (snd (fixLoop n q)) m"
    using Suc.prems by (intro fixCell_frame) simp
  ultimately show ?case by (cases "fixLoop n q") (auto split: bool.splits)
qed

lemma fixLoop_fails:
  assumes "k < n" "isNaN (rd q (int k * 4 + 3))"
  shows "\<not> fst (fixLoop n q)"
  using assms
proof (induction n)
  case 0
  then show ?case by simp
next
  case (Suc n)
  show ?case
  proof (cases "k = n")
    case True
    have "rd (snd (fixLoop n q)) (int n * 4 + 3) = rd q (int n * 4 + 3)"
      by (intro fixLoop_frame) simp
    then have "\<not> fst (fixCell (int n) (snd (fixLoop n q)))"
      using Suc.prems(2) True by (intro fixCell_nan_energy) simp
    then show ?thesis by (cases "fixLoop n q") (auto split: bool.splits)
  next
    case False
    then have "\<not> fst (fixLoop n q)" using Suc by simp
    then show ?thesis by (cases "fixLoop n q") (auto split: bool.splits)
  qed
qed

lemma fixPositivity_fields [simp]:
  "Q (snd (fixPositivityAndCheckStability s)) = Q s"
  "t (snd (fixPositivityAndCheckStability s)) = t s"
  "nx (snd (fixPositivityAndCheckStability s)) = nx s"
  "ny (snd (fixPositivityAndCheckStability s)) = ny s"
  "ambientState (snd (fixPositivityAndCheckStability s)) = ambientState s"
  by (simp_all add: fixPositivityAndCheckStability_def split: prod.splits)

subsection \<open>Reset\<close>

lemma length_ambientCell [simp]: "length (ambientCell s i q) = length q"
  by (simp add: ambientCell_def Let_def)

lemma ambientCell_frame:
  assumes "m < i * 4 \<or> i * 4 + 3 < m"
  shows "rd (ambientCell s i q) m = rd q m"
  using assms by (auto simp add: ambientCell_def Let_def rd_wr_other)

lemma ambientCell_cell:
  assumes "0 \<le> i" "i * 4 + 3 < int (length q)"
  shows "rd (ambientCell s i q) (i * 4) = b_rho (ambientState s)"
    and "rd (ambientCell s i q) (i * 4 + 1) = mul (b_rho (ambientState s)) (b_u (ambientState s))"
    and "rd (ambientCell s i q) (i * 4 + 2) = mul (b_rho (ambientState s)) (b_v (ambientState s))"
    and "rd (ambientCell s i q) (i * 4 + 3) = b_E (ambientState s)"
  using assms by (simp_all add: ambientCell_def Let_def rd_wr_other rd_wr_same)

lemma t_reset [simp]: "t (reset s) = Fin 0"
  by (simp add: reset_def initializeField_def)

lemma Q_reset:
  assumes i: "0 \<le> i" "i < nx s * ny s" "i * 4 + 3 < int (length (Q s))"
  shows "rd (Q (reset s)) (i * 4) = b_rho (ambientState s)"
    and "rd (Q (reset s)) (i * 4 + 1) = mul (b_rho (ambientState s)) (b_u (ambientState s))"
    and "rd (Q (reset s)) (i * 4 + 2) = mul (b_rho (ambientState s)) (b_v (ambientState s))"
    and "rd (Q (reset s)) (i * 4 + 3) = b_E (ambientState s)"
proof -
  define s' where "s' = s\<lparr> t := Fin 0 \<rparr>"
  define qi where "qi = for_loop (nat i) (ambientCell s') (Q s)"
  have Q: "Q (reset s) = for_loop (nat (nx s * ny s)) (ambientCell s') (Q s)"
    by (simp add: reset_def initializeField_def s'_def)
  have lt: "nat i < nat (nx s * ny s)" using i by simp
  have fin: "rd (Q (reset s)) m = rd (ambientCell s' i qi) m" if "i * 4 \<le> m" "m \<le> i * 4 + 3" for m
  proof -
    have "rd (Q (reset s)) m = rd (ambientCell s' (int (nat i)) (for_loop (nat i) (ambientCell s') (Q s))) m"
      unfolding Q
    proof (rule for_loop_final [OF lt])
      fix k :: nat and x assume "nat i < k"
      then have "i * 4 + 3 < int k * 4" using i by simp
      then show "rd (ambientCell s' (int k) x) m = rd x m"
        using that by (intro ambientCell_frame) simp
    qed
    then show ?thesis using i by (simp add: qi_def)
  qed
  have len: "i * 4 + 3 < int (length qi)"
    using i by (simp add: qi_def length_for_loop)
  note c = ambientCell_cell [OF i(1) len, of s']
  show "rd (Q (reset s)) (i * 4) = b_rho (ambientState s)"
    using fin [of "i * 4"] c(1) by (simp add: s'_def)
  show "rd (Q (reset s)) (i * 4 + 1) = mul (b_rho (ambientState s)) (b_u (ambientState s))"
    using fin [of "i * 4 + 1"] c(2) by (simp add: s'_def)
  show "rd (Q (reset s)) (i * 4 + 2) = mul (b_rho (ambientState s)) (b_v (ambientState s))"
    using fin [of "i * 4 + 2"] c(3) by (simp add: s'_def)
  show "rd (Q (reset s)) (i * 4 + 3) = b_E (ambientState s)"
    using fin [of "i * 4 + 3"] c(4) by (simp add: s'_def)
qed

subsection \<open>What a step leaves alone before it commits\<close>

lemma computeFluxes_fields:
  assumes "computeFluxes dt h dX dY s = Inr s'"
  shows "Q s' = Q s" "t s' = t s" "nx s' = nx s" "ny s' = ny s"
        "ambientState s' = ambientState s" "dx s' = dx s" "dy s' = dy s"
  using assms by (auto simp add: computeFluxes_def Let_def split: sum.splits if_splits)

lemma tentative_fields:
  assumes "tentative cfl s = Inr s4"
  shows "Q s4 = Q s" "nx s4 = nx s" "ny s4 = ny s" "ambientState s4 = ambientState s"
    and "t s4 = add (t s) (calculateTimeStep s cfl)"
proof -
  define s1 where "s1 = s\<lparr> t := add (t s) (calculateTimeStep s cfl) \<rparr>"
  obtain s2 s3 where s2: "computeFluxes (calculateTimeStep s cfl) (dx s1) (Fin 1) (Fin 0) s1 = Inr s2"
    and s3: "computeFluxes (calculateTimeStep s cfl) (dy s2) (Fin 0) (Fin 1) s2 = Inr s3"
    and s4: "s4 = applyBoundaryConditions s3"
    using assms by (auto simp add: tentative_def Let_def s1_def split: sum.splits)
  note f2 = computeFluxes_fields [OF s2] and f3 = computeFluxes_fields [OF s3]
  show "Q s4 = Q s" "nx s4 = nx s" "ny s4 = ny s" "ambientState s4 = ambientState s"
    "t s4 = add (t s) (calculateTimeStep s cfl)"
    by (simp_all add: s4 f2 f3 s1_def)
qed

lemma add_NaN_right [simp]: "add x NaN = NaN"
  by (cases x) simp_all

lemma isFinite_iff: "isFinite x \<longleftrightarrow> (\<exists>a. x = Fin a)"
  by (cases x) simp_all

lemma computeEnergy_zero_density: "computeEnergy (Fin 0) (Fin 0) (divide y (Fin 0)) p = NaN"
  by (cases y) (simp_all add: computeEnergy_def inf_times_def)


lemma computeFluxes_X:
  assumes "length (Q s) \<le> length (Q_new s)"
  shows "computeFluxes dt h (Fin 1) (Fin 0) s =
     Inr (s\<lparr> Q_new := for_loop (nat (ny s))
            (\<lambda>j. for_loop (nat (nx s - 1)) (faceUpdate s (divide dt h) (Fin 1) (Fin 0) j))
            (Q s @ drop (length (Q s)) (Q_new s)) \<rparr>)"
  using assms by (simp add: computeFluxes_def arr_set_def Let_def)

lemma computeFluxes_Y:
  "computeFluxes dt h (Fin 0) (Fin 1) s =
     Inr (s\<lparr> Q_new := for_loop (nat (nx s))
            (\<lambda>j. for_loop (nat (ny s - 1)) (faceUpdate s (divide dt h) (Fin 0) (Fin 1) j))
            (Q_new s) \<rparr>)"
  by (simp add: computeFluxes_def Let_def)

text \<open>The first step of the freshly constructed solver, up to the boundary imprint.\<close>

lemma tentative_fresh44:
  "\<exists>s4 d. 0 < d \<and> tentative (Fin (1 / 2)) fresh44 = Inr s4 \<and> t s4 = Fin d
     \<and> nx s4 = 4 \<and> ny s4 = 4 \<and> length (Q_new s4) = 64
     \<and> rd (Q_new s4) 16 = Fin 0 \<and> rd (Q_new s4) 17 = Fin 0 \<and> rd (Q_new s4) 19 = NaN
     \<and> rd (Q_new s4) 20 = Fin 0
     \<and> isFinite (rd (Q_new s4) 21) \<and> isFinite (rd (Q_new s4) 22) \<and> isFinite (rd (Q_new s4) 23)"
proof -
  obtain d where d: "0 < d" "calculateTimeStep fresh44 (Fin (1 / 2)) = Fin d"
    using calculateTimeStep_fresh44 by blast
  define s1 where "s1 = fresh44\<lparr> t := Fin d \<rparr>"
  define r where "r = divide (Fin d) (Fin (9 / 40))"
  define q2 where "q2 = for_loop (nat (ny s1))
            (\<lambda>j. for_loop (nat (nx s1 - 1)) (faceUpdate s1 r (Fin 1) (Fin 0) j)) (replicate 64 (Fin 0))"
  define s2 where "s2 = s1\<lparr> Q_new := q2 \<rparr>"
  define q3 where "q3 = for_loop (nat (nx s2))
            (\<lambda>j. for_loop (nat (ny s2 - 1)) (faceUpdate s2 r (Fin 0) (Fin 1) j)) q2"
  define s3 where "s3 = s2\<lparr> Q_new := q3 \<rparr>"
  define s4 where "s4 = applyBoundaryConditions s3"
  have rfin: "isFinite r" by (simp add: r_def)
  have f1: "Q s1 = replicate 64 (Fin 0)" "nx s1 = 4" "ny s1 = 4" "dx s1 = Fin (9 / 40)"
    "Q_new s1 = replicate 64 (Fin 0)"
    by (simp_all add: s1_def)
  have f2: "Q s2 = replicate 64 (Fin 0)" "nx s2 = 4" "ny s2 = 4" "dy s2 = Fin (9 / 40)"
    "Q_new s2 = q2"
    by (simp_all add: s2_def s1_def)
  have c2: "computeFluxes (Fin d) (Fin (9 / 40)) (Fin 1) (Fin 0) s1 = Inr s2"
    by (simp add: computeFluxes_X f1 s2_def q2_def r_def)
  have c3: "computeFluxes (Fin d) (dy s2) (Fin 0) (Fin 1) s2 = Inr s3"
    by (simp add: computeFluxes_Y f2 s3_def q3_def r_def)
  have tent: "tentative (Fin (1 / 2)) fresh44 = Inr s4"
    using c2 c3 by (simp add: tentative_def Let_def d s1_def [symmetric] s4_def)
  have len1: "int 64 = 4 * nx s1 * ny s1" and len2: "int 64 = 4 * nx s2 * ny s2"
    by (simp_all add: f1 f2)
  have dirX: "(Fin 1, Fin 0) = (Fin 1, Fin 0) \<or> (Fin 1, Fin 0) = (Fin 0, Fin (1::real))"
    and dirY: "(Fin 0, Fin 1) = (Fin 1, Fin 0) \<or> (Fin 0, Fin 1) = (Fin 0, Fin (1::real))"
    by simp_all
  have q2': "q2 = for_loop (nat (if Fin 1 = Fin (1::real) then ny s1 else nx s1))
                 (\<lambda>j. for_loop (nat ((if Fin 1 = Fin (1::real) then nx s1 else ny s1) - 1))
                    (faceUpdate s1 r (Fin 1) (Fin 0) j)) (replicate 64 (Fin 0))"
    by (simp add: q2_def)
  have q3': "q3 = for_loop (nat (if Fin 0 = Fin (1::real) then ny s2 else nx s2))
                 (\<lambda>j. for_loop (nat ((if Fin 0 = Fin (1::real) then nx s2 else ny s2) - 1))
                    (faceUpdate s2 r (Fin 0) (Fin 1) j)) q2"
    by (simp add: q3_def)
  note sx = sweep_zero_field [OF f1(1) len1 dirX rfin q2']
  have sw2: "length q2 = 64" "list_all isFinite q2"
    using sx(1) sx(3) by (simp_all add: list_all_iff)
  note sy = sweep_zero_field [OF f2(1) len2 dirY rfin q3']
  have sw3: "length q3 = 64" "list_all isFinite q3"
    using sy(1) sy(3) sw2 by simp_all
  have f3: "nx s3 = 4" "ny s3 = 4" "Q_new s3 = q3" "t s3 = Fin d"
    by (simp_all add: s3_def s2_def s1_def)
  have rho: "rd q3 20 = Fin 0"
    using sy(2) [of 20] sx(2) [of 20] by (simp add: rd_replicate)
  have fin: "isFinite (rd q3 m)" if "0 \<le> m" "m < 64" for m
    using sw3(2) that by (intro list_all_rd) (simp_all add: sw3(1))
  have wall: "\<not> \<bar>1 - ny s3 div 2\<bar> \<le> ny s3 div 8" by (simp add: f3)
  have p1: "3 \<le> nx s3" and p2: "(0::int) < 1" and p3: "1 < ny s3 - 1"
    and p4: "int (length (Q_new s3)) = 4 * nx s3 * ny s3" and p5: "16 = 1 * nx s3 * 4"
    by (simp_all add: f3 sw3(1))
  note w = applyBoundaryConditions_wall_row [OF p1 p2 p3 wall p4 p5]
  have s4q: "Q_new s4 = Q_new (applyBoundaryConditions s3)" by (simp add: s4_def)
  have w1: "rd (Q_new s4) 16 = Fin 0"
    unfolding s4q using w(1) rho by (simp add: f3)
  have w2: "rd (Q_new s4) 17 = Fin 0"
    unfolding s4q using w(2) by simp
  have w4: "rd (Q_new s4) 19 = NaN"
    unfolding s4q using w(4) by (simp add: f3 rho computeEnergy_zero_density)
  have w5: "rd (Q_new s4) m = rd q3 m" if "20 \<le> m" "m \<le> 23" for m
    unfolding s4q using w(5) [of m] that by (simp add: f3)
  have g: "nx s4 = 4" "ny s4 = 4" "length (Q_new s4) = 64" "t s4 = Fin d"
    by (simp_all add: s4_def f3 sw3(1))
  have "0 < d \<and> tentative (Fin (1 / 2)) fresh44 = Inr s4 \<and> t s4 = Fin d
     \<and> nx s4 = 4 \<and> ny s4 = 4 \<and> length (Q_new s4) = 64
     \<and> rd (Q_new s4) 16 = Fin 0 \<and> rd (Q_new s4) 17 = Fin 0 \<and> rd (Q_new s4) 19 = NaN
     \<and> rd (Q_new s4) 20 = Fin 0
     \<and> isFinite (rd (Q_new s4) 21) \<and> isFinite (rd (Q_new s4) 22) \<and> isFinite (rd (Q_new s4) 23)"
    using d(1) tent w1 w2 w4 w5 [of 20] w5 [of 21] w5 [of 22] w5 [of 23] rho
      fin [of 21] fin [of 22] fin [of 23] g
    by simp
  then show ?thesis by blast
qed

lemma unstable_if_nan_energy:
  assumes "0 \<le> k" "k < nx s * ny s" "isNaN (rd (Q_new s) (k * 4 + 3))"
  shows "\<not> fst (fixPositivityAndCheckStability s)"
proof -
  have "nat k < nat (nx s * ny s)" using assms by simp
  then have "\<not> fst (fixLoop (nat (nx s * ny s)) (Q_new s))"
    using assms by (intro fixLoop_fails [of "nat k"]) simp_all
  then show ?thesis
    by (cases "fixLoop (nat (nx s * ny s)) (Q_new s)")
      (simp add: fixPositivityAndCheckStability_def)
qed

subsection \<open>The bottom and the top row\<close>

lemma farFieldCell_cells:
  assumes i: "0 \<le> i" and bot: "i * 4 + 3 < int (length q)"
      and tp: "tp = ((ny s - 1) * nx s + i) * 4" "tp = i * 4 \<or> i * 4 + 4 \<le> tp"
              "tp + 3 < int (length q)"
  shows "rd (farFieldCell s i q) (i * 4) = b_rho (ambientState s)"
    and "rd (farFieldCell s i q) (i * 4 + 1) = Fin 0"
    and "rd (farFieldCell s i q) (i * 4 + 2) = Fin 0"
    and "rd (farFieldCell s i q) (i * 4 + 3) = b_E (ambientState s)"
    and "rd (farFieldCell s i q) tp = b_rho (ambientState s)"
    and "rd (farFieldCell s i q) (tp + 1) = Fin 0"
    and "rd (farFieldCell s i q) (tp + 2) = Fin 0"
    and "rd (farFieldCell s i q) (tp + 3) = b_E (ambientState s)"
proof -
  have t0: "0 \<le> tp" using tp(2) i by auto
  have unf: "farFieldCell s i q =
      wr (wr (wr (wr (wr (wr (wr (wr q (i * 4) (b_rho (ambientState s))) (i * 4 + 1) (Fin 0))
        (i * 4 + 2) (Fin 0)) (i * 4 + 3) (b_E (ambientState s))) tp (b_rho (ambientState s)))
        (tp + 1) (Fin 0)) (tp + 2) (Fin 0)) (tp + 3) (b_E (ambientState s))"
    unfolding farFieldCell_def Let_def tp(1) [symmetric] by (rule refl)
  show "rd (farFieldCell s i q) (i * 4) = b_rho (ambientState s)"
    "rd (farFieldCell s i q) (i * 4 + 1) = Fin 0"
    "rd (farFieldCell s i q) (i * 4 + 2) = Fin 0"
    "rd (farFieldCell s i q) (i * 4 + 3) = b_E (ambientState s)"
    "rd (farFieldCell s i q) tp = b_rho (ambientState s)"
    "rd (farFieldCell s i q) (tp + 1) = Fin 0"
    "rd (farFieldCell s i q) (tp + 2) = Fin 0"
    "rd (farFieldCell s i q) (tp + 3) = b_E (ambientState s)"
    unfolding unf using tp(2) i bot tp(3) t0
    by (auto simp add: rd_wr_other rd_wr_same)
qed


subsection \<open>The pressure of a wall cell\<close>


section \<open>Divergence recovery\<close>

text \<open>
  Claim C1, as stated, fails: \<^verbatim>\<open>step\<close> recovers from a failed stability check by
  calling \<^verbatim>\<open>reset\<close>, and \<^verbatim>\<open>reset\<close> assigns \<open>t = 0\<close> before it refills \<open>Q\<close>.
  On the solver that \<^verbatim>\<open>new FluidSolver(4, 4)\<close> returns, \<^verbatim>\<open>step(0.5)\<close> advances
  the clock to a positive value, the wall cell \<open>(0, 1)\<close> receives the energy NaN (the
  density copied from cell \<open>(1, 1)\<close> is \<open>0\<close>), the stability check fails, and after the step
  the clock is \<open>0\<close>, not the advanced value.
\<close>

theorem first_step_resets_clock:
  "(case tentative (Fin (1 / 2)) fresh44 of
      Inl e \<Rightarrow> False
    | Inr s4 \<Rightarrow>
        \<not> fst (fixPositivityAndCheckStability s4) \<and> t s4 \<noteq> Fin 0
        \<and> (case step (Fin (1 / 2)) fresh44 of
              Inl e \<Rightarrow> False
            | Inr s' \<Rightarrow> t s' = Fin 0 \<and> t s' \<noteq> t s4))"
proof -
  obtain s4 d where s4: "0 < d" "tentative (Fin (1 / 2)) fresh44 = Inr s4" "t s4 = Fin d"
    "nx s4 = 4" "ny s4 = 4" "rd (Q_new s4) 19 = NaN"
    using tentative_fresh44 by blast
  have u: "\<not> fst (fixPositivityAndCheckStability s4)"
    using s4 by (intro unstable_if_nan_energy [of 4]) simp_all
  then have "step (Fin (1 / 2)) fresh44 = Inr (reset (snd (fixPositivityAndCheckStability s4)))"
    by (cases "fixPositivityAndCheckStability s4") (simp add: step_def s4(2))
  then show ?thesis using u s4 by simp
qed


text \<open>
  Claim C1, amended.  For every call of \<^verbatim>\<open>step\<close> whose stability check fails, the step
  returns normally, every cell of \<open>Q\<close> holds the ambient conservative state
  \<open>(\<rho>, \<rho>u, \<rho>v, E)\<close> of the cached ambient state, and the clock is \<open>0\<close>: the advance by
  \<open>dt\<close> made at the start of the step is discarded.
\<close>

theorem divergence_resets_clock:
  assumes tent: "tentative cfl s = Inr s4"
      and unstable: "\<not> fst (fixPositivityAndCheckStability s4)"
  shows "\<exists>s'. step cfl s = Inr s' \<and> t s' = Fin 0
           \<and> (\<forall>i. 0 \<le> i \<and> i < nx s * ny s \<and> i * 4 + 3 < int (length (Q s)) \<longrightarrow>
                 rd (Q s') (i * 4) = b_rho (ambientState s)
               \<and> rd (Q s') (i * 4 + 1) = mul (b_rho (ambientState s)) (b_u (ambientState s))
               \<and> rd (Q s') (i * 4 + 2) = mul (b_rho (ambientState s)) (b_v (ambientState s))
               \<and> rd (Q s') (i * 4 + 3) = b_E (ambientState s))"
proof -
  define s5 where "s5 = snd (fixPositivityAndCheckStability s4)"
  have st: "step cfl s = Inr (reset s5)"
    using unstable by (cases "fixPositivityAndCheckStability s4") (simp add: step_def tent s5_def)
  note tf = tentative_fields [OF tent]
  have f5: "Q s5 = Q s" "nx s5 = nx s" "ny s5 = ny s" "ambientState s5 = ambientState s"
    by (simp_all add: s5_def tf)
  show ?thesis
    using Q_reset [of _ s5] by (auto simp add: st f5)
qed

theorem divergence_resets_clock_witness:
  "\<exists>s4. tentative (Fin (1 / 2)) fresh44 = Inr s4 \<and> \<not> fst (fixPositivityAndCheckStability s4)
     \<and> (\<exists>s'. step (Fin (1 / 2)) fresh44 = Inr s' \<and> t s' = Fin 0
           \<and> rd (Q s') 0 = Fin (1225 / 1000) \<and> rd (Q s') 1 = Fin 0
           \<and> rd (Q s') 2 = Fin 0 \<and> rd (Q s') 3 = Fin 0)"
proof -
  obtain s4 where s4: "tentative (Fin (1 / 2)) fresh44 = Inr s4"
    "nx s4 = 4" "ny s4 = 4" "rd (Q_new s4) 19 = NaN"
    using tentative_fresh44 by blast
  have u: "\<not> fst (fixPositivityAndCheckStability s4)"
    using s4 by (intro unstable_if_nan_energy [of 4]) simp_all
  obtain s' where s': "step (Fin (1 / 2)) fresh44 = Inr s'" "t s' = Fin 0"
    and cells: "\<forall>i. 0 \<le> i \<and> i < nx fresh44 * ny fresh44 \<and> i * 4 + 3 < int (length (Q fresh44)) \<longrightarrow>
                 rd (Q s') (i * 4) = b_rho (ambientState fresh44)
               \<and> rd (Q s') (i * 4 + 1) = mul (b_rho (ambientState fresh44)) (b_u (ambientState fresh44))
               \<and> rd (Q s') (i * 4 + 2) = mul (b_rho (ambientState fresh44)) (b_v (ambientState fresh44))
               \<and> rd (Q s') (i * 4 + 3) = b_E (ambientState fresh44)"
    using divergence_resets_clock [OF s4(1) u] by blast
  from cells [rule_format, of 0] have "rd (Q s') 0 = Fin (1225 / 1000) \<and> rd (Q s') 1 = Fin 0
           \<and> rd (Q s') 2 = Fin 0 \<and> rd (Q s') 3 = Fin 0"
    by (simp add: fresh44_def)
  then show ?thesis using s4(1) u s' by blast
qed


section \<open>The slip wall of the inlet column\<close>





section \<open>A step from rest with an infinite inlet velocity\<close>

subsection \<open>The field at rest\<close>

lemma Q_infInlet:
  "Q infInlet = [Fin 1, Fin 0, Fin 0, Fin 250, Fin 1, Fin 0, Fin 0, Fin 250,
                 Fin 1, Fin 0, Fin 0, Fin 250, Fin 1, Fin 0, Fin 0, Fin 250,
                 Fin 1, Fin 0, Fin 0, Fin 250, Fin 1, Fin 0, Fin 0, Fin 250,
                 Fin 1, Fin 0, Fin 0, Fin 250, Fin 1, Fin 0, Fin 0, Fin 250,
                 Fin 1, Fin 0, Fin 0, Fin 250, Fin 1, Fin 0, Fin 0, Fin 250,
                 Fin 1, Fin 0, Fin 0, Fin 250, Fin 1, Fin 0, Fin 0, Fin 250,
                 Fin 1, Fin 0, Fin 0, Fin 250, Fin 1, Fin 0, Fin 0, Fin 250,
                 Fin 1, Fin 0, Fin 0, Fin 250, Fin 1, Fin 0, Fin 0, Fin 250]"
  by (simp add: infInlet_def eval_nat_numeral)

lemma still_cell_flux:
  assumes L: "rd (Q s) idxL = Fin 1" "rd (Q s) (idxL + 1) = Fin 0"
             "rd (Q s) (idxL + 2) = Fin 0" "rd (Q s) (idxL + 3) = Fin 250"
      and R: "rd (Q s) idxR = Fin 1" "rd (Q s) (idxR + 1) = Fin 0"
             "rd (Q s) (idxR + 2) = Fin 0" "rd (Q s) (idxR + 3) = Fin 250"
      and ab: "(a, b) = (1, 0) \<or> (a, b) = (0, 1)"
  shows "roeFlux1D s idxL idxR (Fin a) (Fin b) = (Fin 0, Fin (100 * a), Fin (100 * b), Fin 0)"
proof -
  have pr: "getPressure (Fin 1) (Fin 0) (Fin 0) (Fin 250) = Fin 100"
    by (simp add: getPressure_Fin)
  have "roeWaves s idxL idxR (Fin a) (Fin b) =
          Some ((Fin 0, Fin 0, Fin 0, Fin 0), (Fin 0, Fin 0, Fin 0, Fin 0),
                (Fin 0, Fin (100 * a), Fin (100 * b), Fin 0))"
    using roeWaves_equal_cells [OF L R _ pr _ ab, where vn = 0] by simp
  then show ?thesis by (simp add: roeFlux1D_def)
qed

lemma cellSpeed_still:
  assumes "rd (Q s) (i * 4) = Fin 1" "rd (Q s) (i * 4 + 1) = Fin 0"
          "rd (Q s) (i * 4 + 2) = Fin 0" "rd (Q s) (i * 4 + 3) = Fin 250"
  shows "cellSpeed s i (Fin mv) = Fin (max mv (sqrt 140))"
  using assms
  by (simp add: cellSpeed_def Let_def getPressure_Fin PHYSICS_GAMMA_def max_def)

lemma dt_infInlet: "calculateTimeStep infInlet (Fin (1 / 2)) = Fin (5 / 100000)"
proof -
  have "for_loop 16 (cellSpeed infInlet) (Fin 0) = Fin (sqrt 140)"
    by (simp add: for_loop_numeral cellSpeed_still Q_infInlet rd_def)
  moreover have "10 \<le> sqrt 140" by (rule real_le_rsqrt) simp
  moreover have "sqrt 140 \<le> 2250" by (rule real_le_lsqrt) simp_all
  then have "5 / 100000 \<le> 9 / 80 / sqrt 140" by (simp add: field_simps)
  ultimately show ?thesis
    by (simp add: calculateTimeStep_def Let_def infInlet_def)
qed

lemma still_field_flux:
  assumes st: "stillField s ro e"
      and pr: "getPressure (Fin (max (1 / 1000000) ro)) (Fin 0) (Fin 0) (Fin e) = Fin pr"
      and j: "0 \<le> j" "j < (if isX then ny s else nx s)"
      and i: "0 \<le> i" "i < (if isX then nx s else ny s) - 1"
      and ab: "(a, b) = (1, 0) \<or> (a, b) = (0, 1)"
  shows "roeFlux1D s (faceIdxL s isX j i) (faceIdxR s isX j i) (Fin a) (Fin b)
           = (Fin 0, Fin (pr * a), Fin (pr * b), Fin 0)"
proof -
  note fi = face_indices [OF j i]
  define cL where "cL = (if isX then j * nx s + i else i * nx s + j)"
  define cR where "cR = (if isX then j * nx s + i + 1 else (i + 1) * nx s + j)"
  have iL: "faceIdxL s isX j i = cL * 4" and iR: "faceIdxR s isX j i = cR * 4"
    by (simp_all add: faceIdxL_def faceIdxR_def cL_def cR_def)
  have bL: "0 \<le> cL" "cL < nx s * ny s" and bR: "0 \<le> cR" "cR < nx s * ny s"
    using fi by (simp_all add: iL iR)
  have L: "rd (Q s) (cL * 4) = Fin ro" "rd (Q s) (cL * 4 + 1) = Fin 0"
          "rd (Q s) (cL * 4 + 2) = Fin 0" "rd (Q s) (cL * 4 + 3) = Fin e"
    using st bL by (simp_all add: stillField_def)
  have R: "rd (Q s) (cR * 4) = Fin ro" "rd (Q s) (cR * 4 + 1) = Fin 0"
          "rd (Q s) (cR * 4 + 2) = Fin 0" "rd (Q s) (cR * 4 + 3) = Fin e"
    using st bR by (simp_all add: stillField_def)
  have "roeWaves s (cL * 4) (cR * 4) (Fin a) (Fin b) =
          Some ((Fin 0, Fin 0, Fin 0, Fin 0), (Fin 0, Fin 0, Fin 0, Fin 0),
                (Fin 0, Fin (pr * a), Fin (pr * b), Fin 0))"
    using roeWaves_equal_cells [OF L R refl pr _ ab, where vn = 0] by simp
  then show ?thesis by (simp add: roeFlux1D_def iL iR)
qed

lemma faceUpdate_still_field:
  assumes st: "stillField s ro e"
      and dir: "(dX, dY) = (Fin 1, Fin 0) \<or> (dX, dY) = (Fin 0, Fin 1)"
      and r: "isFinite r"
      and j: "0 \<le> j" "j < (if dX = Fin 1 then ny s else nx s)"
      and i: "0 \<le> i" "i < (if dX = Fin 1 then nx s else ny s) - 1"
  shows "length (faceUpdate s r dX dY j i x) = length x"
    and "m mod 4 = 0 \<Longrightarrow> rd (faceUpdate s r dX dY j i x) m = rd x m"
    and "list_all isFinite x \<Longrightarrow> list_all isFinite (faceUpdate s r dX dY j i x)"
proof -
  obtain a b where ab: "dX = Fin a" "dY = Fin b" "(a, b) = (1, 0) \<or> (a, b) = (0, 1)"
    using dir by auto
  obtain pr where pr: "getPressure (Fin (max (1 / 1000000) ro)) (Fin 0) (Fin 0) (Fin e) = Fin pr"
    by (simp add: getPressure_Fin)
  have flux: "roeFlux1D s (faceIdxL s (dX = Fin 1) j i) (faceIdxR s (dX = Fin 1) j i) dX dY
           = (Fin 0, Fin (pr * a), Fin (pr * b), Fin 0)"
    unfolding ab(1,2) [symmetric, THEN eq_reflection]
    using still_field_flux [OF st pr j i ab(3)] by (simp add: ab)
  have fu: "faceUpdate s r dX dY j i x =
      applyFlux r (Fin 0, Fin (pr * a), Fin (pr * b), Fin 0)
        (faceIdxL s (dX = Fin 1) j i) (faceIdxR s (dX = Fin 1) j i) x"
    by (simp add: faceUpdate_def Let_def flux)
  show "length (faceUpdate s r dX dY j i x) = length x"
    by (simp add: fu)
  show "rd (faceUpdate s r dX dY j i x) m = rd x m" if "m mod 4 = 0"
    unfolding fu using that by (intro applyFlux_density_frame faceIdx_mod4 mul_Fin_zero r)
  show "list_all isFinite (faceUpdate s r dX dY j i x)" if "list_all isFinite x"
    unfolding fu using that r by (intro applyFlux_finite) simp_all
qed

lemma sweep_still_field:
  assumes st: "stillField s ro e"
      and dir: "(dX, dY) = (Fin 1, Fin 0) \<or> (dX, dY) = (Fin 0, Fin 1)"
      and r: "isFinite r"
      and q': "q' = for_loop (nat (if dX = Fin 1 then ny s else nx s))
                 (\<lambda>j. for_loop (nat ((if dX = Fin 1 then nx s else ny s) - 1))
                    (faceUpdate s r dX dY j)) q"
  shows "length q' = length q"
    and "m mod 4 = 0 \<Longrightarrow> rd q' m = rd q m"
    and "list_all isFinite q \<Longrightarrow> list_all isFinite q'"
proof -
  define P where "P x \<longleftrightarrow> length x = length q \<and> (m mod 4 = 0 \<longrightarrow> rd x m = rd q m)
      \<and> (list_all isFinite q \<longrightarrow> list_all isFinite x)" for x
  have "P q'"
    unfolding q'
  proof (rule for_loop_invariant)
    show "P q" by (simp add: P_def)
  next
    fix k x assume k: "k < nat (if dX = Fin 1 then ny s else nx s)" and x: "P x"
    show "P (for_loop (nat ((if dX = Fin 1 then nx s else ny s) - 1)) (faceUpdate s r dX dY (int k)) x)"
    proof (rule for_loop_invariant)
      show "P x" by (rule x)
    next
      fix l y assume l: "l < nat ((if dX = Fin 1 then nx s else ny s) - 1)" and y: "P y"
      have j: "0 \<le> int k" "int k < (if dX = Fin 1 then ny s else nx s)" using k by simp_all
      have i: "0 \<le> int l" "int l < (if dX = Fin 1 then nx s else ny s) - 1" using l by simp_all
      note fu = faceUpdate_still_field [OF st dir r j i]
      show "P (faceUpdate s r dX dY (int k) (int l) y)"
        using y fu(1) [of y] fu(2) [of m y] fu(3) [of y] by (simp add: P_def)
    qed
  qed
  then show "length q' = length q" "m mod 4 = 0 \<Longrightarrow> rd q' m = rd q m"
    "list_all isFinite q \<Longrightarrow> list_all isFinite q'"
    by (simp_all add: P_def)
qed

lemma stillField_replicate_zero:
  assumes "Q s = replicate N (Fin 0)" "int N = 4 * nx s * ny s"
  shows "stillField s 0 0"
  using assms by (simp add: stillField_def rd_replicate)

lemma stillField_infInlet: "stillField infInlet 1 250"
proof -
  have "rd (Q infInlet) (c * 4) = Fin 1 \<and> rd (Q infInlet) (c * 4 + 1) = Fin 0
           \<and> rd (Q infInlet) (c * 4 + 2) = Fin 0 \<and> rd (Q infInlet) (c * 4 + 3) = Fin 250"
    if "0 \<le> c" "c < 16" for c
  proof -
    have "c = 0 \<or> c = 1 \<or> c = 2 \<or> c = 3 \<or> c = 4 \<or> c = 5 \<or> c = 6 \<or> c = 7
        \<or> c = 8 \<or> c = 9 \<or> c = 10 \<or> c = 11 \<or> c = 12 \<or> c = 13 \<or> c = 14 \<or> c = 15"
      using that by arith
    then show ?thesis by (auto simp add: Q_infInlet rd_def)
  qed
  then show ?thesis by (simp add: stillField_def Q_infInlet) (simp add: infInlet_def)
qed

subsection \<open>The inlet row of the imprint\<close>

lemma inletCell_inlet:
  assumes ap: "\<bar>j - ny s div 2\<bar> \<le> ny s div 8"
      and idx: "idx = j * nx s * 4" "0 \<le> idx" "idx + 3 < int (length q)"
  shows "rd (inletCell s j q) idx = b_rho (inletState s)"
    and "rd (inletCell s j q) (idx + 1) = mul (b_rho (inletState s)) (b_u (inletState s))"
    and "rd (inletCell s j q) (idx + 2) = mul (b_rho (inletState s)) (b_v (inletState s))"
    and "rd (inletCell s j q) (idx + 3) = b_E (inletState s)"
  using ap idx(2,3)
  by (simp_all add: inletCell_def Let_def idx(1) [symmetric] rd_wr_other rd_wr_same)

text \<open>
  The left-column cell of a row strictly between the bottom and the top row is what the
  inlet loop writes in that row's iteration, and the cell in column 1 is not touched.
\<close>

lemma applyBoundaryConditions_left_cell:
  assumes n3: "3 \<le> nx s"
      and j: "0 < j" "j < ny s - 1"
      and len: "int (length (Q_new s)) = 4 * nx s * ny s"
      and idx: "idx = j * nx s * 4"
      and qj: "qj = for_loop (nat j) (inletCell s) (Q_new s)"
  shows "\<And>m. idx \<le> m \<Longrightarrow> m \<le> idx + 3 \<Longrightarrow>
           rd (Q_new (applyBoundaryConditions s)) m = rd (inletCell s j qj) m"
    and "\<And>m. idx + 4 \<le> m \<Longrightarrow> m \<le> idx + 7 \<Longrightarrow>
           rd (Q_new (applyBoundaryConditions s)) m = rd (Q_new s) m"
    and "\<And>m. idx + 4 \<le> m \<Longrightarrow> m \<le> idx + 7 \<Longrightarrow> rd qj m = rd (Q_new s) m"
    and "0 \<le> idx" and "idx + 7 < int (length qj)"
proof -
  define q where "q = Q_new s"
  define q1 where "q1 = for_loop (nat (ny s)) (inletCell s) q"
  define q2 where "q2 = for_loop (nat (ny s)) (outletCell s) q1"
  define q3 where "q3 = for_loop (nat (nx s)) (farFieldCell s) q2"
  have q3: "Q_new (applyBoundaryConditions s) = q3"
    by (simp add: applyBoundaryConditions_def Let_def q3_def q2_def q1_def q_def)
  have win: "rd q3 m = rd q1 m" if "idx \<le> m" "m \<le> idx + 7" for m
  proof -
    have "rd q3 m = rd q2 m"
      unfolding q3_def
    proof (rule for_loop_frame)
      fix k :: nat and x assume "k < nat (nx s)"
      then have "0 \<le> int k" "int k < nx s" by simp_all
      from far_field_apart [OF n3 j this] that show "rd (farFieldCell s (int k) x) m = rd x m"
        by (intro farFieldCell_frame) (simp_all add: idx)
    qed
    also have "\<dots> = rd q1 m"
      unfolding q2_def
    proof (rule for_loop_frame)
      fix k :: nat and x
      from outlet_apart [OF n3, of "int k" j] that show "rd (outletCell s (int k) x) m = rd x m"
        by (intro outletCell_frame) (auto simp add: idx)
    qed
    finally show ?thesis .
  qed
  have other: "rd (inletCell s (int k) x) m = rd x m" if "int k \<noteq> j" "idx \<le> m" "m \<le> idx + 7" for k x m
    using rows_apart [OF n3 that(1)] that(2,3) by (intro inletCell_frame) (auto simp add: idx)
  have col1: "rd q1 m = rd q m" "rd qj m = rd q m" if "idx + 4 \<le> m" "m \<le> idx + 7" for m
  proof -
    show "rd q1 m = rd q m"
      unfolding q1_def
    proof (rule for_loop_frame)
      fix k :: nat and x
      show "rd (inletCell s (int k) x) m = rd x m"
      proof (cases "int k = j")
        case True
        then show ?thesis using that by (intro inletCell_frame) (simp add: idx)
      next
        case False
        then show ?thesis using that by (intro other) simp_all
      qed
    qed
    show "rd qj m = rd q m"
      unfolding qj q_def [symmetric]
    proof (rule for_loop_frame)
      fix k :: nat and x assume "k < nat j"
      then have "int k \<noteq> j" by simp
      then show "rd (inletCell s (int k) x) m = rd x m" using that by (intro other) simp_all
    qed
  qed
  have jn: "nat j < nat (ny s)" using j by simp
  show "rd (Q_new (applyBoundaryConditions s)) m = rd (inletCell s j qj) m"
    if "idx \<le> m" "m \<le> idx + 3" for m
  proof -
    have "rd q1 m = rd (inletCell s (int (nat j)) (for_loop (nat j) (inletCell s) q)) m"
      unfolding q1_def
    proof (rule for_loop_final [OF jn])
      fix k :: nat and x assume "nat j < k"
      then have "int k \<noteq> j" by simp
      then show "rd (inletCell s (int k) x) m = rd x m" using that by (intro other) simp_all
    qed
    then show ?thesis using j win [of m] that by (simp add: qj q_def q3)
  qed
  show "rd (Q_new (applyBoundaryConditions s)) m = rd (Q_new s) m"
    if "idx + 4 \<le> m" "m \<le> idx + 7" for m
    using win [of m] col1(1) [of m] that by (simp add: q3 q_def)
  show "rd qj m = rd (Q_new s) m" if "idx + 4 \<le> m" "m \<le> idx + 7" for m
    using col1(2) [of m] that by (simp add: q_def)
  have lenj: "length qj = length q"
    by (simp add: qj q_def length_for_loop)
  have "0 * nx s + nx s \<le> j * nx s" using j n3 by (intro row_below) simp_all
  then show "0 \<le> idx" using n3 by (simp add: idx)
  have "j * nx s + nx s \<le> (ny s - 1) * nx s" using j n3 by (intro row_below) simp_all
  then have "j * nx s * 4 + 4 * nx s \<le> 4 * nx s * ny s - 4 * nx s" by (simp add: algebra_simps)
  then show "idx + 7 < int (length qj)" using n3 by (simp add: lenj q_def len idx)
qed

lemma applyBoundaryConditions_inlet_row:
  assumes n3: "3 \<le> nx s"
      and j: "0 < j" "j < ny s - 1"
      and ap: "\<bar>j - ny s div 2\<bar> \<le> ny s div 8"
      and len: "int (length (Q_new s)) = 4 * nx s * ny s"
      and idx: "idx = j * nx s * 4"
  shows "rd (Q_new (applyBoundaryConditions s)) idx = b_rho (inletState s)"
    and "rd (Q_new (applyBoundaryConditions s)) (idx + 1)
           = mul (b_rho (inletState s)) (b_u (inletState s))"
    and "rd (Q_new (applyBoundaryConditions s)) (idx + 2)
           = mul (b_rho (inletState s)) (b_v (inletState s))"
    and "rd (Q_new (applyBoundaryConditions s)) (idx + 3) = b_E (inletState s)"
proof -
  note lc = applyBoundaryConditions_left_cell [OF n3 j len idx refl]
  have r: "idx + 3 < int (length (for_loop (nat j) (inletCell s) (Q_new s)))"
    using lc(5) by simp
  note ic = inletCell_inlet [OF ap idx lc(4) r]
  show "rd (Q_new (applyBoundaryConditions s)) idx = b_rho (inletState s)"
    using lc(1) [of idx] ic(1) by simp
  show "rd (Q_new (applyBoundaryConditions s)) (idx + 1)
           = mul (b_rho (inletState s)) (b_u (inletState s))"
    using lc(1) [of "idx + 1"] ic(2) by simp
  show "rd (Q_new (applyBoundaryConditions s)) (idx + 2)
           = mul (b_rho (inletState s)) (b_v (inletState s))"
    using lc(1) [of "idx + 2"] ic(3) by simp
  show "rd (Q_new (applyBoundaryConditions s)) (idx + 3) = b_E (inletState s)"
    using lc(1) [of "idx + 3"] ic(4) by simp
qed

subsection \<open>Cells that pass the stability check\<close>

lemma length_fixLoop [simp]: "length (snd (fixLoop n q)) = length q"
proof (induction n)
  case 0
  then show ?case by simp
next
  case (Suc n)
  then show ?case by (cases "fixLoop n q") (auto split: bool.splits)
qed

lemma divide_not_NaN:
  assumes "\<not> isNaN x" "0 < r"
  shows "\<not> isNaN (divide x (Fin r))"
  using assms by (cases x) simp_all

lemma fixCell_passes:
  assumes "0 \<le> i" "i * 4 + 3 < int (length q)"
      and "isFinite (rd q (i * 4))" "isFinite (rd q (i * 4 + 3))"
      and "\<not> isNaN (rd q (i * 4 + 1))" "\<not> isNaN (rd q (i * 4 + 2))"
  shows "fst (fixCell i q)"
proof -
  obtain r e where re: "rd q (i * 4) = Fin r" "rd q (i * 4 + 3) = Fin e"
    using assms(3,4) by (auto simp add: isFinite_iff)
  show ?thesis
  proof (cases "r < 5 / 100")
    case True
    then show ?thesis
      using assms(1,2)
      by (simp add: fixCell_def Let_def re rd_wr_other rd_wr_same)
  next
    case False
    then have "0 < r" by simp
    then have "\<not> isNaN (divide (rd q (i * 4 + 1)) (Fin r))"
      "\<not> isNaN (divide (rd q (i * 4 + 2)) (Fin r))"
      using assms(5,6) by (simp_all add: divide_not_NaN)
    then show ?thesis
      using False by (simp add: fixCell_def Let_def re)
  qed
qed

lemma fixLoop_passes:
  assumes "int n * 4 \<le> int (length q)"
      and "\<And>c. c < n \<Longrightarrow> isFinite (rd q (int c * 4)) \<and> isFinite (rd q (int c * 4 + 3))
              \<and> \<not> isNaN (rd q (int c * 4 + 1)) \<and> \<not> isNaN (rd q (int c * 4 + 2))"
  shows "fst (fixLoop n q)"
  using assms
proof (induction n)
  case 0
  then show ?case by simp
next
  case (Suc n)
  have ih: "fst (fixLoop n q)" using Suc by simp
  define q' where "q' = snd (fixLoop n q)"
  have fl: "fixLoop n q = (True, q')" using ih by (simp add: q'_def prod_eq_iff)
  have same: "rd q' m = rd q m" if "int n * 4 \<le> m" for m
    unfolding q'_def using that by (rule fixLoop_frame)
  have len': "length q' = length q" by (simp add: q'_def)
  have "fst (fixCell (int n) q')"
    using Suc.prems(1) Suc.prems(2) [of n]
    by (intro fixCell_passes) (simp_all add: same len')
  then show ?case by (simp add: fl)
qed

lemma fixLoop_final:
  assumes "k < n" "int k * 4 \<le> m" "m \<le> int k * 4 + 3"
  shows "rd (snd (fixLoop n q)) m = rd (snd (fixLoop (Suc k) q)) m"
  using assms
proof (induction n)
  case 0
  then show ?case by simp
next
  case (Suc n)
  show ?case
  proof (cases "k = n")
    case True
    then show ?thesis by simp
  next
    case False
    then have kn: "k < n" using Suc.prems by simp
    have "rd (snd (fixCell (int n) x)) m = rd x m" for x
      using kn Suc.prems by (intro fixCell_frame) simp
    then have "rd (snd (fixLoop (Suc n) q)) m = rd (snd (fixLoop n q)) m"
      by (cases "fixLoop n q") (auto split: bool.splits)
    then show ?thesis using Suc.IH [OF kn Suc.prems(2,3)] by simp
  qed
qed

lemma fixCell_infinite_momentum:
  assumes "0 \<le> i" "i * 4 + 3 < int (length q)"
      and "rd q (i * 4) = Fin r" "5 / 100 \<le> r" "rd q (i * 4 + 1) = PInf"
      and "rd q (i * 4 + 2) = Fin my" "rd q (i * 4 + 3) = Fin e"
  shows "fixCell i q = (True, wr q (i * 4 + 3) PInf)"
proof -
  show ?thesis
    using assms(4)
    by (simp add: fixCell_def Let_def assms(3,5,6,7) PHYSICS_GAMMA_def inf_times_def sub_def)
qed

subsection \<open>The imprint on the grid of sixteen cells\<close>

lemma outletCell_cells:
  assumes "idxIn = (j * nx s + nx s - 2) * 4" "idxOut = idxIn + 4"
      and "0 \<le> idxIn" "idxOut + 3 < int (length q)"
  shows "rd (outletCell s j q) idxOut = rd q idxIn"
    and "rd (outletCell s j q) (idxOut + 1) = rd q (idxIn + 1)"
    and "rd (outletCell s j q) (idxOut + 2) = rd q (idxIn + 2)"
    and "rd (outletCell s j q) (idxOut + 3) = rd q (idxIn + 3)"
proof -
  have o: "(j * nx s + nx s - 1) * 4 = idxOut" using assms(1,2) by simp
  have unf: "outletCell s j q =
      (let q1 = wr q idxOut (rd q idxIn);
           q2 = wr q1 (idxOut + 1) (rd q1 (idxIn + 1));
           q3 = wr q2 (idxOut + 2) (rd q2 (idxIn + 2))
       in wr q3 (idxOut + 3) (rd q3 (idxIn + 3)))"
    unfolding outletCell_def o assms(1) [symmetric] by (simp add: Let_def)
  show "rd (outletCell s j q) idxOut = rd q idxIn"
    "rd (outletCell s j q) (idxOut + 1) = rd q (idxIn + 1)"
    "rd (outletCell s j q) (idxOut + 2) = rd q (idxIn + 2)"
    "rd (outletCell s j q) (idxOut + 3) = rd q (idxIn + 3)"
    unfolding unf Let_def using assms(2-4)
    by (simp_all add: rd_wr_other rd_wr_same)
qed

text \<open>
  The imprint on a \<open>4 \<times> 4\<close> grid keeps every entry of the buffer free of NaN, every
  density and energy finite, and the cells of column 1 finite with density \<open>1\<close>, when the
  inlet state is \<open>(1, \<infinity>, 0, _, 250)\<close> and the ambient state is \<open>(1, _, _, _, 250)\<close>.
\<close>

lemma imprint_cells_pass:
  assumes g: "nx s = 4" "ny s = 4"
      and inl: "b_rho (inletState s) = Fin 1" "b_u (inletState s) = PInf"
               "b_v (inletState s) = Fin 0" "b_E (inletState s) = Fin 250"
      and amb: "b_rho (ambientState s) = Fin 1" "b_E (ambientState s) = Fin 250"
      and len: "length (Q_new s) = 64"
      and fin: "list_all isFinite (Q_new s)"
      and rho: "\<And>m. 0 \<le> m \<Longrightarrow> m < 64 \<Longrightarrow> m mod 4 = 0 \<Longrightarrow> rd (Q_new s) m = Fin 1"
      and c: "0 \<le> c" "c < 16"
  shows "isFinite (rd (Q_new (applyBoundaryConditions s)) (c * 4))"
    and "\<not> isNaN (rd (Q_new (applyBoundaryConditions s)) (c * 4 + 1))"
    and "\<not> isNaN (rd (Q_new (applyBoundaryConditions s)) (c * 4 + 2))"
    and "isFinite (rd (Q_new (applyBoundaryConditions s)) (c * 4 + 3))"
proof -
  define ok where "ok m v \<longleftrightarrow> \<not> isNaN v
      \<and> (m mod 4 = 0 \<or> m mod 4 = 3 \<or> (4 \<le> m mod 16 \<and> m mod 16 \<le> 7) \<longrightarrow> isFinite v)
      \<and> (m mod 16 = 4 \<longrightarrow> v = Fin 1)" for m :: int and v
  define P where "P q \<longleftrightarrow> length q = 64 \<and> (\<forall>m. 0 \<le> m \<and> m < 64 \<longrightarrow> ok m (rd q m))" for q
  have ok_fin: "ok m (Fin a)" if "m mod 16 \<noteq> 4" for m a
    using that by (simp add: ok_def)
  have four: "k = 0 \<or> k = 1 \<or> k = 2 \<or> k = 3" if "k < 4" for k :: nat
    using that by arith
  have P0: "P (Q_new s)"
    unfolding P_def ok_def
  proof (intro conjI allI impI len)
    fix m :: int assume m: "0 \<le> m \<and> m < 64"
    then have f: "isFinite (rd (Q_new s) m)" using fin by (intro list_all_rd) (simp_all add: len)
    then show "\<not> isNaN (rd (Q_new s) m)" by (auto simp add: isFinite_iff)
    show "isFinite (rd (Q_new s) m)" by (rule f)
    show "rd (Q_new s) m = Fin 1" if "m mod 16 = 4"
    proof -
      have "m mod 4 = 0" using that by presburger
      then show ?thesis using m by (intro rho) simp_all
    qed
  qed
  have Pin: "P (inletCell s (int k) q)" if k: "k < nat (ny s)" and q: "P q" for k q
  proof -
    have k4: "k < 4" using k g by simp
    define idx where "idx = int k * nx s * 4"
    have idx: "idx = int k * 16" by (simp add: idx_def g)
    have lq: "length q = 64" using q by (simp add: P_def)
    have i0: "0 \<le> idx" "idx + 7 < int (length q)" "idx + 3 < int (length q)"
      using k4 by (simp_all add: idx lq)
    have rdq: "ok m (rd q m)" if "0 \<le> m" "m < 64" for m
      using q that by (simp add: P_def)
    have cells: "ok idx (rd (inletCell s (int k) q) idx)
        \<and> ok (idx + 1) (rd (inletCell s (int k) q) (idx + 1))
        \<and> ok (idx + 2) (rd (inletCell s (int k) q) (idx + 2))
        \<and> ok (idx + 3) (rd (inletCell s (int k) q) (idx + 3))"
    proof (cases "\<bar>int k - ny s div 2\<bar> \<le> ny s div 8")
      case True
      note ic = inletCell_inlet [OF True idx_def i0(1,3)]
      have okv: "ok idx (Fin 1) \<and> ok (idx + 1) PInf \<and> ok (idx + 2) (Fin 0)
          \<and> ok (idx + 3) (Fin 250)"
        using four [OF k4] by (auto simp add: idx ok_def)
      have mu: "mul (Fin 1) PInf = PInf" "mul (Fin 1) (Fin 0) = Fin 0"
        by (simp_all add: inf_times_def)
      show ?thesis unfolding ic inl mu by (rule okv)
    next
      case False
      note iw = inletCell_wall [OF False idx_def i0(1,2)]
      have r4: "rd q (idx + 4) = Fin 1"
        using rdq [of "idx + 4"] four [OF k4] by (auto simp add: idx ok_def)
      have f: "isFinite (rd q (idx + 5))" "isFinite (rd q (idx + 6))" "isFinite (rd q (idx + 7))"
        using rdq [of "idx + 5"] rdq [of "idx + 6"] rdq [of "idx + 7"] four [OF k4]
        by (auto simp add: idx ok_def)
      then obtain mx my e where v: "rd q (idx + 5) = Fin mx" "rd q (idx + 6) = Fin my"
        "rd q (idx + 7) = Fin e"
        by (auto simp add: isFinite_iff)
      have en: "\<exists>a. computeEnergy (Fin 1) (Fin 0) (divide (Fin my) (Fin 1))
                  (getPressure (Fin 1) (Fin mx) (Fin my) (Fin e)) = Fin a"
        by (simp add: getPressure_Fin computeEnergy_def PHYSICS_GAMMA_def)
      then obtain a where a: "rd (inletCell s (int k) q) (idx + 3) = Fin a"
        using iw(4) by (auto simp add: r4 v)
      have okv: "ok idx (Fin 1) \<and> ok (idx + 1) (Fin 0) \<and> ok (idx + 2) (Fin my)
          \<and> ok (idx + 3) (Fin a)"
        using four [OF k4] by (auto simp add: idx ok_def)
      show ?thesis unfolding iw(1-3) a r4 v by (rule okv)
    qed
    have "ok m (rd (inletCell s (int k) q) m)" if m: "0 \<le> m" "m < 64" for m
    proof (cases "idx \<le> m \<and> m \<le> idx + 3")
      case True
      then have "m = idx \<or> m = idx + 1 \<or> m = idx + 2 \<or> m = idx + 3" by arith
      then show ?thesis using cells by auto
    next
      case False
      then have "rd (inletCell s (int k) q) m = rd q m"
        by (intro inletCell_frame) (auto simp add: idx_def)
      then show ?thesis using rdq [OF m] by simp
    qed
    then show ?thesis by (simp add: P_def lq)
  qed
  have Pout: "P (outletCell s (int k) q)" if k: "k < nat (ny s)" and q: "P q" for k q
  proof -
    have k4: "k < 4" using k g by simp
    define idxIn where "idxIn = (int k * nx s + nx s - 2) * 4"
    define idxOut where "idxOut = idxIn + 4"
    have idx: "idxIn = int k * 16 + 8" "idxOut = int k * 16 + 12"
      by (simp_all add: idxIn_def idxOut_def g)
    have lq: "length q = 64" using q by (simp add: P_def)
    have i0: "0 \<le> idxIn" "idxOut + 3 < int (length q)"
      using k4 by (simp_all add: idx lq)
    have rdq: "ok m (rd q m)" if "0 \<le> m" "m < 64" for m
      using q that by (simp add: P_def)
    note oc = outletCell_cells [OF idxIn_def idxOut_def i0]
    have okv: "ok idxOut (rd q idxIn) \<and> ok (idxOut + 1) (rd q (idxIn + 1))
        \<and> ok (idxOut + 2) (rd q (idxIn + 2)) \<and> ok (idxOut + 3) (rd q (idxIn + 3))"
      using rdq [of idxIn] rdq [of "idxIn + 1"] rdq [of "idxIn + 2"] rdq [of "idxIn + 3"]
        four [OF k4]
      by (auto simp add: idx ok_def)
    have cells: "ok idxOut (rd (outletCell s (int k) q) idxOut)
        \<and> ok (idxOut + 1) (rd (outletCell s (int k) q) (idxOut + 1))
        \<and> ok (idxOut + 2) (rd (outletCell s (int k) q) (idxOut + 2))
        \<and> ok (idxOut + 3) (rd (outletCell s (int k) q) (idxOut + 3))"
      unfolding oc by (rule okv)
    have "ok m (rd (outletCell s (int k) q) m)" if m: "0 \<le> m" "m < 64" for m
    proof (cases "idxOut \<le> m \<and> m \<le> idxOut + 3")
      case True
      then have "m = idxOut \<or> m = idxOut + 1 \<or> m = idxOut + 2 \<or> m = idxOut + 3" by arith
      then show ?thesis using cells by auto
    next
      case False
      then have "rd (outletCell s (int k) q) m = rd q m"
        by (intro outletCell_frame) (auto simp add: idxOut_def idxIn_def)
      then show ?thesis using rdq [OF m] by simp
    qed
    then show ?thesis by (simp add: P_def lq)
  qed
  have Pfar: "P (farFieldCell s (int k) q)" if k: "k < nat (nx s)" and q: "P q" for k q
  proof -
    have k4: "k < 4" using k g by simp
    define tp where "tp = ((ny s - 1) * nx s + int k) * 4"
    have tp: "tp = 48 + int k * 4" by (simp add: tp_def g)
    have lq: "length q = 64" using q by (simp add: P_def)
    have i0: "0 \<le> int k" "int k * 4 + 3 < int (length q)"
      "tp = int k * 4 \<or> int k * 4 + 4 \<le> tp" "tp + 3 < int (length q)"
      using k4 by (simp_all add: tp lq)
    have rdq: "ok m (rd q m)" if "0 \<le> m" "m < 64" for m
      using q that by (simp add: P_def)
    note fc = farFieldCell_cells [OF i0(1,2) tp_def i0(3,4)]
    have okv: "ok (int k * 4) (Fin 1) \<and> ok (int k * 4 + 1) (Fin 0)
        \<and> ok (int k * 4 + 2) (Fin 0) \<and> ok (int k * 4 + 3) (Fin 250)
        \<and> ok tp (Fin 1) \<and> ok (tp + 1) (Fin 0) \<and> ok (tp + 2) (Fin 0) \<and> ok (tp + 3) (Fin 250)"
      using four [OF k4] by (auto simp add: tp ok_def)
    have cells8: "ok (int k * 4) (rd (farFieldCell s (int k) q) (int k * 4))
        \<and> ok (int k * 4 + 1) (rd (farFieldCell s (int k) q) (int k * 4 + 1))
        \<and> ok (int k * 4 + 2) (rd (farFieldCell s (int k) q) (int k * 4 + 2))
        \<and> ok (int k * 4 + 3) (rd (farFieldCell s (int k) q) (int k * 4 + 3))
        \<and> ok tp (rd (farFieldCell s (int k) q) tp)
        \<and> ok (tp + 1) (rd (farFieldCell s (int k) q) (tp + 1))
        \<and> ok (tp + 2) (rd (farFieldCell s (int k) q) (tp + 2))
        \<and> ok (tp + 3) (rd (farFieldCell s (int k) q) (tp + 3))"
      unfolding fc amb by (rule okv)
    have cells: "ok m (rd (farFieldCell s (int k) q) m)"
      if "(int k * 4 \<le> m \<and> m \<le> int k * 4 + 3) \<or> (tp \<le> m \<and> m \<le> tp + 3)" for m
    proof -
      have "m = int k * 4 \<or> m = int k * 4 + 1 \<or> m = int k * 4 + 2 \<or> m = int k * 4 + 3
          \<or> m = tp \<or> m = tp + 1 \<or> m = tp + 2 \<or> m = tp + 3"
        using that by arith
      then show ?thesis using cells8 by auto
    qed
    have "ok m (rd (farFieldCell s (int k) q) m)" if m: "0 \<le> m" "m < 64" for m
    proof (cases "(int k * 4 \<le> m \<and> m \<le> int k * 4 + 3) \<or> (tp \<le> m \<and> m \<le> tp + 3)")
      case True
      then show ?thesis by (rule cells)
    next
      case False
      then have "rd (farFieldCell s (int k) q) m = rd q m"
        by (intro farFieldCell_frame) (auto simp add: tp_def)
      then show ?thesis using rdq [OF m] by simp
    qed
    then show ?thesis by (simp add: P_def lq)
  qed
  have "P (Q_new (applyBoundaryConditions s))"
    unfolding applyBoundaryConditions_def Let_def
    by (simp, intro for_loop_invariant [where P = P] P0 Pin Pout Pfar)
  then have "ok m (rd (Q_new (applyBoundaryConditions s)) m)" if "0 \<le> m" "m < 64" for m
    using that by (simp add: P_def)
  from this [of "c * 4"] this [of "c * 4 + 1"] this [of "c * 4 + 2"] this [of "c * 4 + 3"] c
  show "isFinite (rd (Q_new (applyBoundaryConditions s)) (c * 4))"
    "\<not> isNaN (rd (Q_new (applyBoundaryConditions s)) (c * 4 + 1))"
    "\<not> isNaN (rd (Q_new (applyBoundaryConditions s)) (c * 4 + 2))"
    "isFinite (rd (Q_new (applyBoundaryConditions s)) (c * 4 + 3))"
    by (simp_all add: ok_def)
qed

lemma infInlet_fields [simp]:
  "nx infInlet = 4" "ny infInlet = 4" "t infInlet = Fin 0"
  "dx infInlet = Fin (9 / 40)" "dy infInlet = Fin (9 / 40)"
  "Q_new infInlet = replicate 64 (Fin 0)"
  "inletState infInlet = \<lparr> b_rho = Fin 1, b_u = PInf, b_v = Fin 0, b_p = Fin 100, b_E = Fin 250 \<rparr>"
  "ambientState infInlet = \<lparr> b_rho = Fin 1, b_u = Fin 0, b_v = Fin 0, b_p = Fin 100, b_E = Fin 250 \<rparr>"
  by (simp_all add: infInlet_def)

lemma stillField_fields:
  assumes "stillField s ro e" "nx s' = nx s" "ny s' = ny s" "Q s' = Q s"
  shows "stillField s' ro e"
  using assms by (simp add: stillField_def)

text \<open>
  The step of the still field with an infinite inlet velocity, up to the boundary imprint:
  every cell is fit to pass the check, and the aperture cell of row 2 holds the inlet state
  with momentum \<open>+\<infinity>\<close>.
\<close>

lemma tentative_infInlet:
  "\<exists>s4. tentative (Fin (1 / 2)) infInlet = Inr s4 \<and> t s4 = Fin (5 / 100000)
     \<and> nx s4 = 4 \<and> ny s4 = 4 \<and> length (Q s4) = 64 \<and> length (Q_new s4) = 64
     \<and> (\<forall>c. 0 \<le> c \<and> c < 16 \<longrightarrow> isFinite (rd (Q_new s4) (c * 4))
            \<and> isFinite (rd (Q_new s4) (c * 4 + 3))
            \<and> \<not> isNaN (rd (Q_new s4) (c * 4 + 1)) \<and> \<not> isNaN (rd (Q_new s4) (c * 4 + 2)))
     \<and> rd (Q_new s4) 32 = Fin 1 \<and> rd (Q_new s4) 33 = PInf
     \<and> rd (Q_new s4) 34 = Fin 0 \<and> rd (Q_new s4) 35 = Fin 250"
proof -
  define d :: real where "d = 5 / 100000"
  have d: "calculateTimeStep infInlet (Fin (1 / 2)) = Fin d"
    by (simp add: dt_infInlet d_def)
  define s1 where "s1 = infInlet\<lparr> t := Fin d \<rparr>"
  define r where "r = divide (Fin d) (Fin (9 / 40))"
  define q2 where "q2 = for_loop (nat (ny s1))
            (\<lambda>j. for_loop (nat (nx s1 - 1)) (faceUpdate s1 r (Fin 1) (Fin 0) j)) (Q infInlet)"
  define s2 where "s2 = s1\<lparr> Q_new := q2 \<rparr>"
  define q3 where "q3 = for_loop (nat (nx s2))
            (\<lambda>j. for_loop (nat (ny s2 - 1)) (faceUpdate s2 r (Fin 0) (Fin 1) j)) q2"
  define s3 where "s3 = s2\<lparr> Q_new := q3 \<rparr>"
  define s4 where "s4 = applyBoundaryConditions s3"
  have rfin: "isFinite r" by (simp add: r_def)
  have lq: "length (Q infInlet) = 64" by (simp add: Q_infInlet)
  have f1: "Q s1 = Q infInlet" "nx s1 = 4" "ny s1 = 4" "dx s1 = Fin (9 / 40)"
    "Q_new s1 = replicate 64 (Fin 0)"
    by (simp_all add: s1_def)
  have f2: "Q s2 = Q infInlet" "nx s2 = 4" "ny s2 = 4" "dy s2 = Fin (9 / 40)"
    "Q_new s2 = q2"
    by (simp_all add: s2_def s1_def)
  have c2: "computeFluxes (Fin d) (Fin (9 / 40)) (Fin 1) (Fin 0) s1 = Inr s2"
    by (simp add: computeFluxes_X f1 lq s2_def q2_def r_def)
  have c3: "computeFluxes (Fin d) (dy s2) (Fin 0) (Fin 1) s2 = Inr s3"
    by (simp add: computeFluxes_Y f2 s3_def q3_def r_def)
  have tent: "tentative (Fin (1 / 2)) infInlet = Inr s4"
    using c2 c3 by (simp add: tentative_def Let_def d s1_def [symmetric] s4_def)
  have st1: "stillField s1 1 250" and st2: "stillField s2 1 250"
    by (rule stillField_fields [OF stillField_infInlet]; simp add: f1 f2)+
  have dirX: "(Fin 1, Fin 0) = (Fin 1, Fin 0) \<or> (Fin 1, Fin 0) = (Fin 0, Fin (1::real))"
    and dirY: "(Fin 0, Fin 1) = (Fin 1, Fin 0) \<or> (Fin 0, Fin 1) = (Fin 0, Fin (1::real))"
    by simp_all
  have q2': "q2 = for_loop (nat (if Fin 1 = Fin (1::real) then ny s1 else nx s1))
                 (\<lambda>j. for_loop (nat ((if Fin 1 = Fin (1::real) then nx s1 else ny s1) - 1))
                    (faceUpdate s1 r (Fin 1) (Fin 0) j)) (Q infInlet)"
    by (simp add: q2_def)
  have q3': "q3 = for_loop (nat (if Fin 0 = Fin (1::real) then ny s2 else nx s2))
                 (\<lambda>j. for_loop (nat ((if Fin 0 = Fin (1::real) then nx s2 else ny s2) - 1))
                    (faceUpdate s2 r (Fin 0) (Fin 1) j)) q2"
    by (simp add: q3_def)
  note sx = sweep_still_field [OF st1 dirX rfin q2']
  note sy = sweep_still_field [OF st2 dirY rfin q3']
  have fin0: "list_all isFinite (Q infInlet)" by (simp add: Q_infInlet)
  have sw3: "length q3 = 64" "list_all isFinite q3"
    using sx(1) sx(3) sy(1) sy(3) fin0 by (simp_all add: lq)
  have rho: "rd q3 m = Fin 1" if m: "0 \<le> m" "m < 64" "m mod 4 = 0" for m
  proof -
    have "rd q3 m = rd (Q infInlet) m"
      using sy(2) [OF m(3)] sx(2) [OF m(3)] by simp
    moreover have "0 \<le> m div 4 \<and> m div 4 < 16" using m(1,2) by presburger
    then have "rd (Q infInlet) (m div 4 * 4) = Fin 1"
      using stillField_infInlet by (simp add: stillField_def)
    moreover have "m div 4 * 4 = m" using m(3) by presburger
    ultimately show ?thesis by simp
  qed
  have f3: "nx s3 = 4" "ny s3 = 4" "Q_new s3 = q3" "t s3 = Fin d" "Q s3 = Q infInlet"
    "inletState s3 = inletState infInlet" "ambientState s3 = ambientState infInlet"
    by (simp_all add: s3_def s2_def s1_def)
  have i1: "b_rho (inletState s3) = Fin 1" and i2: "b_u (inletState s3) = PInf"
    and i3: "b_v (inletState s3) = Fin 0" and i4: "b_E (inletState s3) = Fin 250"
    and a1: "b_rho (ambientState s3) = Fin 1" and a2: "b_E (ambientState s3) = Fin 250"
    by (simp_all add: f3)
  have l3: "length (Q_new s3) = 64" and fin3: "list_all isFinite (Q_new s3)"
    by (simp_all add: f3 sw3)
  have rho3: "rd (Q_new s3) m = Fin 1" if "0 \<le> m" "m < 64" "m mod 4 = 0" for m
    using rho [OF that] by (simp add: f3)
  note cp = imprint_cells_pass [OF f3(1,2) i1 i2 i3 i4 a1 a2 l3 fin3]
  have p1: "3 \<le> nx s3" and p2: "(0::int) < 2" and p3: "2 < ny s3 - 1"
    and ap: "\<bar>2 - ny s3 div 2\<bar> \<le> ny s3 div 8"
    and p4: "int (length (Q_new s3)) = 4 * nx s3 * ny s3" and p5: "32 = 2 * nx s3 * 4"
    by (simp_all add: f3 sw3(1))
  note ir = applyBoundaryConditions_inlet_row [OF p1 p2 p3 ap p4 p5]
  have s4q: "Q_new s4 = Q_new (applyBoundaryConditions s3)" by (simp add: s4_def)
  have w: "rd (Q_new s4) 32 = Fin 1" "rd (Q_new s4) 33 = PInf"
    "rd (Q_new s4) 34 = Fin 0" "rd (Q_new s4) 35 = Fin 250"
    unfolding s4q using ir by (simp_all add: i1 i2 i3 i4 inf_times_def)
  have cells: "isFinite (rd (Q_new s4) (c * 4)) \<and> isFinite (rd (Q_new s4) (c * 4 + 3))
      \<and> \<not> isNaN (rd (Q_new s4) (c * 4 + 1)) \<and> \<not> isNaN (rd (Q_new s4) (c * 4 + 2))"
    if "0 \<le> c" "c < 16" for c
    unfolding s4q using that by (intro conjI cp) (simp_all add: rho3)
  have g: "nx s4 = 4" "ny s4 = 4" "length (Q s4) = 64" "length (Q_new s4) = 64"
    "t s4 = Fin (5 / 100000)"
    by (simp_all add: s4_def f3 sw3(1) lq d_def)
  show ?thesis
    using tent g cells w by blast
qed

section \<open>What the stability check establishes\<close>

lemma checkedCell_cong:
  assumes "\<And>m. c * 4 \<le> m \<Longrightarrow> m \<le> c * 4 + 3 \<Longrightarrow> rd q' m = rd q m"
  shows "checkedCell q' c = checkedCell q c"
proof -
  have eq: "rd q' (c * 4) = rd q (c * 4)" "rd q' (c * 4 + 1) = rd q (c * 4 + 1)"
    "rd q' (c * 4 + 2) = rd q (c * 4 + 2)" "rd q' (c * 4 + 3) = rd q (c * 4 + 3)"
    by (rule assms; simp)+
  show ?thesis unfolding checkedCell_def eq by (rule refl)
qed

lemma fixCell_guarantee:
  assumes i: "0 \<le> i" "i * 4 + 3 < int (length q)"
      and ok: "fst (fixCell i q)"
  shows "checkedCell (snd (fixCell i q)) i"
proof -
  have "\<not> (isNaN (rd q (i * 4)) \<or> \<not> isFinite (rd q (i * 4)))"
    "\<not> (isNaN (rd q (i * 4 + 3)) \<or> \<not> isFinite (rd q (i * 4 + 3)))"
    using ok by (auto simp add: fixCell_def Let_def split: if_splits)
  then obtain r e where re: "rd q (i * 4) = Fin r" "rd q (i * 4 + 3) = Fin e"
    by (auto simp add: isFinite_iff)
  show ?thesis
  proof (cases "r < 5 / 100")
    case True
    then show ?thesis
      using i
      by (simp add: fixCell_def Let_def re rd_wr_other rd_wr_same checkedCell_def
            PHYSICS_GAMMA_def)
  next
    case False
    then have r0: "0 < r" "5 / 100 \<le> r" by simp_all
    show ?thesis
    proof (cases "rd q (i * 4 + 1)")
      case mx: (Fin mx)
      show ?thesis
      proof (cases "rd q (i * 4 + 2)")
        case my: (Fin my)
        show ?thesis
          using i False r0
          by (simp add: fixCell_def Let_def re mx my rd_wr_other rd_wr_same checkedCell_def
                PHYSICS_GAMMA_def)
      next
        case PInf
        then show ?thesis
          using i False r0
          by (simp add: fixCell_def Let_def re mx rd_wr_other rd_wr_same checkedCell_def
                PHYSICS_GAMMA_def inf_times_def sub_def)
      next
        case NInf
        then show ?thesis
          using i False r0
          by (simp add: fixCell_def Let_def re mx rd_wr_other rd_wr_same checkedCell_def
                PHYSICS_GAMMA_def inf_times_def sub_def)
      next
        case NaN
        then show ?thesis
          using ok False by (simp add: fixCell_def Let_def re mx)
      qed
    next
      case mx: PInf
      show ?thesis
      proof (cases "rd q (i * 4 + 2)")
        case NaN
        then show ?thesis
          using ok False r0 by (simp add: fixCell_def Let_def re mx)
      qed (use i False r0 in \<open>simp_all add: fixCell_def Let_def re mx rd_wr_other rd_wr_same
            checkedCell_def PHYSICS_GAMMA_def inf_times_def sub_def\<close>)
    next
      case mx: NInf
      show ?thesis
      proof (cases "rd q (i * 4 + 2)")
        case NaN
        then show ?thesis
          using ok False r0 by (simp add: fixCell_def Let_def re mx)
      qed (use i False r0 in \<open>simp_all add: fixCell_def Let_def re mx rd_wr_other rd_wr_same
            checkedCell_def PHYSICS_GAMMA_def inf_times_def sub_def\<close>)
    next
      case NaN
      then show ?thesis
        using ok False by (simp add: fixCell_def Let_def re)
    qed
  qed
qed

lemma fixLoop_guarantee:
  assumes "int n * 4 \<le> int (length q)" "fst (fixLoop n q)" "c < n"
  shows "checkedCell (snd (fixLoop n q)) (int c)"
  using assms
proof (induction n)
  case 0
  then show ?case by simp
next
  case (Suc n)
  define q' where "q' = snd (fixLoop n q)"
  have ok: "fst (fixLoop n q)"
    using Suc.prems(2) by (cases "fixLoop n q") (auto split: bool.splits)
  then have fl: "fixLoop n q = (True, q')" by (simp add: q'_def prod_eq_iff)
  have len': "length q' = length q" by (simp add: q'_def)
  have nxt: "fixLoop (Suc n) q = fixCell (int n) q'" by (simp add: fl)
  have okc: "fst (fixCell (int n) q')" using Suc.prems(2) unfolding nxt .
  show ?case
  proof (cases "c = n")
    case True
    have "checkedCell (snd (fixCell (int n) q')) (int n)"
      using Suc.prems(1) okc by (intro fixCell_guarantee) (simp_all add: len')
    then show ?thesis unfolding True nxt .
  next
    case False
    then have c: "c < n" using Suc.prems(3) by simp
    have ih: "checkedCell q' (int c)"
      unfolding q'_def using Suc.prems(1) ok c by (intro Suc.IH) simp_all
    have "checkedCell (snd (fixCell (int n) q')) (int c) = checkedCell q' (int c)"
    proof (rule checkedCell_cong)
      fix m :: int assume "int c * 4 \<le> m" "m \<le> int c * 4 + 3"
      then have "m < int n * 4" using c by simp
      then show "rd (snd (fixCell (int n) q')) m = rd q' m"
        by (intro fixCell_frame) simp
    qed
    then show ?thesis using ih unfolding nxt by simp
  qed
qed

lemma length_computeFluxes:
  assumes "computeFluxes dt h dX dY s = Inr s'"
  shows "length (Q_new s') = length (Q_new s)"
proof -
  have l: "length (for_loop n (\<lambda>j. for_loop k (faceUpdate s r a b j)) q) = length q"
    for n k r q a b
    by (intro length_for_loop) (simp add: faceUpdate_def Let_def)
  show ?thesis
    using assms
    by (auto simp add: computeFluxes_def Let_def arr_set_def l split: sum.splits if_splits)
qed

lemma length_tentative:
  assumes "tentative cfl s = Inr s4"
  shows "length (Q_new s4) = length (Q_new s)"
proof -
  define s1 where "s1 = s\<lparr> t := add (t s) (calculateTimeStep s cfl) \<rparr>"
  obtain s2 s3 where s2: "computeFluxes (calculateTimeStep s cfl) (dx s1) (Fin 1) (Fin 0) s1 = Inr s2"
    and s3: "computeFluxes (calculateTimeStep s cfl) (dy s2) (Fin 0) (Fin 1) s2 = Inr s3"
    and s4: "s4 = applyBoundaryConditions s3"
    using assms by (auto simp add: tentative_def Let_def s1_def split: sum.splits)
  show ?thesis
    using length_computeFluxes [OF s2] length_computeFluxes [OF s3]
    by (simp add: s4 s1_def)
qed

text \<open>
  What the check does establish.  When the check passes and the step commits, every cell
  of \<open>Q\<close> has a finite density of at least \<open>0.05\<close> and momenta that are not NaN, and every
  cell whose two momenta are finite has a finite energy and a pressure of at least \<open>100\<close>.
\<close>

lemma committed_step_cells:
  assumes tent: "tentative cfl s = Inr s4"
      and stable: "fst (fixPositivityAndCheckStability s4)"
      and len: "length (Q s) = length (Q_new s)" "int (length (Q s)) = 4 * nx s * ny s"
      and c: "0 \<le> c" "c < nx s * ny s"
  shows "\<exists>s'. step cfl s = Inr s' \<and> t s' = t s4 \<and> checkedCell (Q s') c"
proof -
  note f = tentative_fields [OF tent]
  define n where "n = nat (nx s * ny s)"
  define q5 where "q5 = snd (fixLoop n (Q_new s4))"
  have l4: "length (Q_new s4) = length (Q s)"
    using length_tentative [OF tent] len(1) by simp
  have ok: "fst (fixLoop n (Q_new s4))"
    using stable
    by (cases "fixLoop n (Q_new s4)") (simp add: fixPositivityAndCheckStability_def f n_def)
  then have fl: "fixLoop n (Q_new s4) = (True, q5)" by (simp add: q5_def prod_eq_iff)
  have chk: "fixPositivityAndCheckStability s4 = (True, s4\<lparr> Q_new := q5 \<rparr>)"
    by (simp add: fixPositivityAndCheckStability_def f n_def [symmetric] fl)
  have l5: "length q5 = length (Q s)" by (simp add: q5_def l4)
  have st: "step cfl s = Inr (s4\<lparr> Q_new := q5, Q := q5 \<rparr>)"
    by (simp add: step_def tent chk arr_set_def f l5)
  have n4: "int n * 4 \<le> int (length (Q_new s4))"
    using c by (simp add: n_def l4 len(2))
  have cn: "nat c < n" using c by (simp add: n_def)
  have "checkedCell q5 (int (nat c))"
    unfolding q5_def by (rule fixLoop_guarantee [OF n4 ok cn])
  then have "checkedCell q5 c" using c(1) by simp
  then show ?thesis by (simp add: st)
qed

section \<open>What a committed step leaves in the field\<close>

text \<open>
  Claim C2 says that after a committed step every cell has a density of at least \<open>0.05\<close>,
  a pressure of at least \<open>100\<close> and four finite components.  The stability check
  (\<^verbatim>\<open>// Returns true if stable, false if NaN/Inf detected\<close>) tests the density and the
  energy with \<^verbatim>\<open>isNaN(..) || !isFinite(..)\<close> but the two velocities with \<^verbatim>\<open>isNaN\<close> only.
  On the solver at rest whose inlet velocity is \<open>+\<infinity>\<close>, \<^verbatim>\<open>step(0.5)\<close> imprints the
  momentum \<open>+\<infinity>\<close> into the aperture cell of row 2 (entries 32 to 35 of the buffer), the
  check returns true, its pressure floor rewrites the energy of that cell to \<open>+\<infinity>\<close>, and
  the step commits: the clock keeps its advance and \<open>Q\<close> holds a cell with density \<open>1\<close>,
  momentum \<open>+\<infinity>\<close> and energy \<open>+\<infinity>\<close>.
\<close>

theorem infinite_momentum_committed:
  "\<exists>s4 s'. tentative (Fin (1 / 2)) infInlet = Inr s4
     \<and> fst (fixPositivityAndCheckStability s4)
     \<and> step (Fin (1 / 2)) infInlet = Inr s' \<and> t s' = Fin (5 / 100000)
     \<and> rd (Q s') 32 = Fin 1 \<and> rd (Q s') 33 = PInf \<and> rd (Q s') 34 = Fin 0
     \<and> rd (Q s') 35 = PInf"
proof -
  obtain s4 where tent: "tentative (Fin (1 / 2)) infInlet = Inr s4"
    and g: "t s4 = Fin (5 / 100000)" "nx s4 = 4" "ny s4 = 4" "length (Q s4) = 64"
      "length (Q_new s4) = 64"
    and cells: "\<And>c. 0 \<le> c \<Longrightarrow> c < 16 \<Longrightarrow> isFinite (rd (Q_new s4) (c * 4))
            \<and> isFinite (rd (Q_new s4) (c * 4 + 3))
            \<and> \<not> isNaN (rd (Q_new s4) (c * 4 + 1)) \<and> \<not> isNaN (rd (Q_new s4) (c * 4 + 2))"
    and w: "rd (Q_new s4) 32 = Fin 1" "rd (Q_new s4) 33 = PInf"
      "rd (Q_new s4) 34 = Fin 0" "rd (Q_new s4) 35 = Fin 250"
    using tentative_infInlet by blast
  define q4 where "q4 = Q_new s4"
  define q5 where "q5 = snd (fixLoop 16 q4)"
  define q8 where "q8 = snd (fixLoop 8 q4)"
  have l4: "length q4 = 64" by (simp add: q4_def g)
  have w4: "rd q4 32 = Fin 1" "rd q4 33 = PInf" "rd q4 34 = Fin 0" "rd q4 35 = Fin 250"
    using w by (simp_all add: q4_def)
  have cn: "isFinite (rd q4 (int c * 4)) \<and> isFinite (rd q4 (int c * 4 + 3))
            \<and> \<not> isNaN (rd q4 (int c * 4 + 1)) \<and> \<not> isNaN (rd q4 (int c * 4 + 2))"
    if "c < 16" for c
    unfolding q4_def using that by (intro cells) simp_all
  have pass16: "fst (fixLoop 16 q4)"
    by (rule fixLoop_passes) (simp_all add: l4 cn)
  have pass8: "fst (fixLoop 8 q4)"
    by (rule fixLoop_passes) (simp_all add: l4 cn)
  have fl16: "fixLoop 16 q4 = (True, q5)"
    using pass16 by (simp add: q5_def prod_eq_iff)
  have fl8: "fixLoop 8 q4 = (True, q8)"
    using pass8 by (simp add: q8_def prod_eq_iff)
  have l8: "length q8 = 64" by (simp add: q8_def l4)
  have l5: "length q5 = 64" by (simp add: q5_def l4)
  have r8: "rd q8 m = rd q4 m" if "32 \<le> m" for m
    unfolding q8_def using that by (intro fixLoop_frame) simp
  have c8: "fixCell 8 q8 = (True, wr q8 (8 * 4 + 3) PInf)"
    by (rule fixCell_infinite_momentum [where r = 1 and my = 0 and e = 250])
       (simp_all add: l8 r8 w4)
  have "fixLoop (Suc 8) q4 = fixCell 8 q8"
    unfolding fixLoop.simps fl8 by simp
  then have fl9: "snd (fixLoop (Suc 8) q4) = wr q8 35 PInf"
    unfolding c8 by simp
  have fin: "rd q5 m = rd (wr q8 35 PInf) m" if "32 \<le> m" "m \<le> 35" for m
  proof -
    have "rd (snd (fixLoop 16 q4)) m = rd (snd (fixLoop (Suc 8) q4)) m"
      using that by (intro fixLoop_final) simp_all
    then show ?thesis unfolding q5_def fl9 .
  qed
  have v: "rd q5 32 = Fin 1" "rd q5 33 = PInf" "rd q5 34 = Fin 0" "rd q5 35 = PInf"
    by (simp_all add: fin rd_wr_other rd_wr_same l8 r8 w4)
  have chk: "fixPositivityAndCheckStability s4 = (True, s4\<lparr> Q_new := q5 \<rparr>)"
    by (simp add: fixPositivityAndCheckStability_def g q4_def [symmetric] fl16)
  have st: "step (Fin (1 / 2)) infInlet = Inr (s4\<lparr> Q_new := q5, Q := q5 \<rparr>)"
    by (simp add: step_def tent chk arr_set_def g l5)
  show ?thesis
    using tent chk st g(1) v by simp
qed

end
